theory Spec2Isabelle
  imports Main
begin

section \<open>Data model of FS.c\<close>

text \<open>
  The program keeps three global objects: the superblock \<^verbatim>\<open>spblock\<close>, the pointer
  \<^verbatim>\<open>root\<close> to the tree of \<^verbatim>\<open>filetype\<close> structs, and the array \<^verbatim>\<open>file_array\<close> that
  \<^verbatim>\<open>save_contents\<close> fills before writing it to disk.

  Conventions of the embedding.
  \<^item> A C array is a function from indices to cells; every index the source computes is
    compared with the bound of the array, and an access outside it is the error
    \<open>Fault\<close>.
  \<^item> A C string is the list of its characters before the terminating NUL. A copy of a
    string of \<open>n\<close> characters writes \<open>n + 1\<close> bytes; where the destination is shorter
    (the path copy of \<^verbatim>\<open>sizeof(path) + 1\<close> bytes in \<^verbatim>\<open>myopen\<close>, \<^verbatim>\<open>myread\<close> and
    \<^verbatim>\<open>mywrite\<close>, \<^verbatim>\<open>curr_folder[100]\<close>, \<^verbatim>\<open>name[100]\<close>, \<^verbatim>\<open>path[100]\<close>, \<^verbatim>\<open>cpystr\<close>) the
    copy is \<open>Fault\<close>. The path copies made with \<^verbatim>\<open>malloc(strlen(path) + 2)\<close> always
    fit. The data arena and \<^verbatim>\<open>cpystr\<close> are modelled byte by byte, terminators
    included.
  \<^item> A pointer to a \<^verbatim>\<open>filetype\<close> is an address (a natural number) of the store
    \<open>heap\<close>; \<open>None\<close> is the NULL pointer. The program never calls \<^verbatim>\<open>free\<close>, so
    the store is total.
  \<^item> The store \<open>heap\<close> holds the structs the handlers \<^verbatim>\<open>malloc\<close>; \<open>file_array\<close> is
    a store of its own. This is the session that \<^verbatim>\<open>main\<close> starts in its else branch
    (no \<^verbatim>\<open>file_structure.bin\<close>): there every entry of the tree is a \<^verbatim>\<open>malloc\<close>ed
    struct and no pointer of the tree leads into \<^verbatim>\<open>file_array\<close>. In a session that
    starts with the reload branch of \<^verbatim>\<open>main\<close> the entries of the tree are cells of
    \<^verbatim>\<open>file_array\<close>, and \<^verbatim>\<open>file_array[*index] = curr_node\<close> in \<^verbatim>\<open>tree_to_array\<close>
    overwrites entries of the tree; such a session is not covered by the states of this
    development, and no statement below is about one.
  \<^item> Memory the source reads before writing it (the \<^verbatim>\<open>malloc\<close>ed queue, the local
    \<^verbatim>\<open>waste_node\<close>, the \<^verbatim>\<open>malloc\<close>ed \<^verbatim>\<open>cpystr\<close>) is a parameter, collected in the
    record \<open>env\<close>.
\<close>

definition block_size :: nat where
  "block_size = 1024"

text \<open>
  \<^verbatim>\<open>sizeof(path)\<close> for \<^verbatim>\<open>const char *path\<close>: the size of a pointer, 8 bytes on the
  64-bit systems the program is built for.
\<close>

definition sizeof_ptr :: nat where
  "sizeof_ptr = 8"

definition arena_size :: nat where
  "arena_size = block_size * 100"

definition NUL :: char where
  "NUL = CHR 0x00"

record superblock =
  sb_datablocks :: "nat \<Rightarrow> char"  \<comment> \<open>\<^verbatim>\<open>char datablocks[block_size * 100]\<close>\<close>
  data_bitmap :: "nat \<Rightarrow> char"  \<comment> \<open>\<^verbatim>\<open>char data_bitmap[105]\<close>\<close>
  inode_bitmap :: "nat \<Rightarrow> char"  \<comment> \<open>\<^verbatim>\<open>char inode_bitmap[105]\<close>\<close>

text \<open>
  \<^verbatim>\<open>struct filetype\<close>. The pair \<^verbatim>\<open>children\<close>, \<^verbatim>\<open>num_children\<close> is the list
  \<open>children\<close> (its length is \<^verbatim>\<open>num_children\<close>). The array \<^verbatim>\<open>children\<close> points to can
  be longer than \<^verbatim>\<open>num_children\<close>: \<^verbatim>\<open>add_child\<close> allocates exactly
  \<^verbatim>\<open>num_children\<close> cells, and \<^verbatim>\<open>myrmdir\<close> lowers \<^verbatim>\<open>num_children\<close> without giving the
  last cell back. \<open>spare_cells\<close> is the number of cells of the array behind the first
  \<^verbatim>\<open>num_children\<close>. The field \<^verbatim>\<open>inum\<close> is never assigned or read and is left out.
  \<^verbatim>\<open>size\<close> only ever holds 0 or a sum of \<^verbatim>\<open>strlen\<close> results, so it is a natural
  number.
\<close>

record filetype =
  valid :: int
  test :: string
  path :: string
  name :: string
  children :: "nat list"
  spare_cells :: nat
  num_links :: int
  parent :: "nat option"
  ftype :: string
  permissions :: nat
  user_id :: nat
  group_id :: nat
  a_time :: int
  m_time :: int
  c_time :: int
  b_time :: int
  size_bytes :: nat
  datablocks :: "nat \<Rightarrow> int"  \<comment> \<open>\<^verbatim>\<open>int datablocks[16]\<close>\<close>
  number :: int
  blocks :: int

record fs =
  spblock :: superblock
  root :: nat
  heap :: "nat \<Rightarrow> filetype"
  file_array :: "nat \<Rightarrow> filetype"  \<comment> \<open>\<^verbatim>\<open>filetype file_array[50]\<close>\<close>

record env =
  rear_below_front :: bool
    \<comment> \<open>the value of the pointer comparison \<^verbatim>\<open>rear < front\<close> in \<^verbatim>\<open>tree_to_array\<close>\<close>
  fresh_queue :: "nat \<Rightarrow> filetype"
    \<comment> \<open>what \<^verbatim>\<open>malloc(sizeof(filetype) * 60)\<close> holds before it is written\<close>
  waste_junk :: filetype
    \<comment> \<open>what the local \<^verbatim>\<open>waste_node\<close> holds before \<^verbatim>\<open>valid\<close> is set\<close>
  cpystr_junk :: "nat \<Rightarrow> char"
    \<comment> \<open>what \<^verbatim>\<open>malloc(1024)\<close> in \<^verbatim>\<open>mywrite\<close> holds before it is written\<close>
  now :: int
  uid :: nat
  gid :: nat

datatype error =
  ENOENT  \<comment> \<open>the handler returned \<^verbatim>\<open>-ENOENT\<close>\<close>
  | ENOTEMPTY  \<comment> \<open>the handler returned \<^verbatim>\<open>-ENOTEMPTY\<close>\<close>
  | Exited  \<comment> \<open>\<^verbatim>\<open>exit(1)\<close>\<close>
  | NoValue  \<comment> \<open>control reached the end of a non-void function\<close>
  | Fault  \<comment> \<open>an access outside an array, or through a null or indeterminate pointer\<close>

section \<open>Allocation\<close>

text \<open>
  \<^verbatim>\<open>initialize_superblock\<close>: both bitmaps get the character \<^verbatim>\<open>'0'\<close> in their
  first 100 cells.
\<close>

definition initialize_superblock :: "superblock \<Rightarrow> superblock" where
  "initialize_superblock sb =
     sb\<lparr>data_bitmap := (\<lambda>i. if i < 100 then CHR ''0'' else data_bitmap sb i),
        inode_bitmap := (\<lambda>i. if i < 100 then CHR ''0'' else inode_bitmap sb i)\<rparr>"

text \<open>
  \<^verbatim>\<open>find_free_inode\<close>. In the source the \<^verbatim>\<open>return i;\<close> stands after the \<^verbatim>\<open>if\<close>,
  inside the body of the \<^verbatim>\<open>for\<close> loop, so the first iteration (\<^verbatim>\<open>i = 2\<close>) returns
  whatever the bitmap holds.
\<close>

definition find_free_inode :: "superblock \<Rightarrow> nat \<times> superblock" where
  "find_free_inode sb =
     (let i = 2 in
      if inode_bitmap sb i = CHR ''0''
      then (i, sb\<lparr>inode_bitmap := (inode_bitmap sb)(i := CHR ''1'')\<rparr>)
      else (i, sb))"

text \<open>
  \<^verbatim>\<open>find_free_db\<close> has the same shape, starts at \<^verbatim>\<open>i = 1\<close>, and reads and writes
  \<^verbatim>\<open>spblock.inode_bitmap\<close>.
\<close>

definition find_free_db :: "superblock \<Rightarrow> nat \<times> superblock" where
  "find_free_db sb =
     (let i = 1 in
      if inode_bitmap sb i = CHR ''0''
      then (i, sb\<lparr>inode_bitmap := (inode_bitmap sb)(i := CHR ''1'')\<rparr>)
      else (i, sb))"

text \<open>
  What the documentation of both functions asks for: the first index of the scanned
  range whose bitmap cell is \<^verbatim>\<open>'0'\<close>.
\<close>

definition lowest_free :: "(nat \<Rightarrow> char) \<Rightarrow> nat \<Rightarrow> nat option" where
  "lowest_free bm lo = List.find (\<lambda>i. bm i = CHR ''0'') [lo..<100]"

section \<open>Path resolution\<close>

text \<open>
  The scan of a directory in \<^verbatim>\<open>filetype_from_path\<close>: a \<^verbatim>\<open>for\<close> loop over
  \<^verbatim>\<open>children[0 .. num_children - 1]\<close> that stops at the first child whose name
  compares equal (\<^verbatim>\<open>strcmp\<close>) to the segment.
\<close>

fun find_child :: "(nat \<Rightarrow> filetype) \<Rightarrow> nat list \<Rightarrow> string \<Rightarrow> nat option" where
  "find_child hp [] nm = None"
| "find_child hp (c # cs) nm = (if name (hp c) = nm then Some c else find_child hp cs nm)"

text \<open>
  The \<^verbatim>\<open>while (strlen(path_name) != 0)\<close> loop. With a separator left in
  \<open>pn\<close> (\<^verbatim>\<open>strchr\<close> finds one) the segment before it is copied into
  \<^verbatim>\<open>curr_folder\<close> and looked up, and the loop goes on behind the separator; without
  one the rest is copied and looked up and the result returned. \<^verbatim>\<open>curr_folder\<close> has
  100 bytes: a segment of 100 characters or more does not fit with its terminator.
  When the loop ends because nothing is left, the function ends without a
  \<^verbatim>\<open>return\<close>: \<open>NoValue\<close>.
\<close>

function walk :: "(nat \<Rightarrow> filetype) \<Rightarrow> nat \<Rightarrow> string \<Rightarrow> error + nat option" where
  "walk hp curr_node pn =
     (if pn = [] then Inl NoValue
      else if CHR ''/'' \<in> set pn then
        (if 100 \<le> length (takeWhile (\<lambda>c. c \<noteq> CHR ''/'') pn) then Inl Fault
         else
           (case find_child hp (children (hp curr_node)) (takeWhile (\<lambda>c. c \<noteq> CHR ''/'') pn) of
              None \<Rightarrow> Inr None
            | Some c \<Rightarrow> walk hp c (tl (dropWhile (\<lambda>c. c \<noteq> CHR ''/'') pn))))
      else if 100 \<le> length pn then Inl Fault
      else Inr (find_child hp (children (hp curr_node)) pn))"
  by pat_completeness auto
termination
proof (relation "measure (\<lambda>(hp, curr_node, pn). length pn)")
  show "wf (measure (\<lambda>(hp, curr_node, pn). length pn))"
    by simp
next
  fix hp :: "nat \<Rightarrow> filetype" and curr_node :: nat and pn :: string and x2 :: nat
  assume "pn \<noteq> []"
  have "length (dropWhile (\<lambda>c. c \<noteq> CHR ''/'') pn) \<le> length pn"
    by (rule length_dropWhile_le)
  moreover assume "CHR ''/'' \<in> set pn"
  then have "dropWhile (\<lambda>c. c \<noteq> CHR ''/'') pn \<noteq> []"
    by auto
  ultimately have "length (tl (dropWhile (\<lambda>c. c \<noteq> CHR ''/'') pn)) < length pn"
    by (cases "dropWhile (\<lambda>c. c \<noteq> CHR ''/'') pn") auto
  then show "((hp, x2, tl (dropWhile (\<lambda>c. c \<noteq> CHR ''/'') pn)), (hp, curr_node, pn))
      \<in> measure (\<lambda>(hp, curr_node, pn). length pn)"
    by simp
qed

declare walk.simps [simp del]

text \<open>
  \<^verbatim>\<open>filetype_from_path\<close>: \<^verbatim>\<open>"/"\<close> is the root; a path that does not start with
  the separator ends the process; otherwise the leading separator is skipped, one
  trailing separator is cut, and the loop runs on the rest.
\<close>

definition filetype_from_path :: "fs \<Rightarrow> string \<Rightarrow> error + nat option" where
  "filetype_from_path s p =
     (if p = ''/'' then Inr (Some (root s))
      else if p = [] then Inl Exited
      else if hd p \<noteq> CHR ''/'' then Inl Exited
      else
        (let path_name = tl p;
             path_name = (if last path_name = CHR ''/'' then butlast path_name else path_name)
         in walk (heap s) (root s) path_name))"

text \<open>
  A caller that tests or dereferences the returned pointer reads an indeterminate
  value when the function ended without a \<^verbatim>\<open>return\<close>.
\<close>

definition used :: "error + nat option \<Rightarrow> error + nat option" where
  "used r = (case r of Inl NoValue \<Rightarrow> Inl Fault | Inl e \<Rightarrow> Inl e | Inr v \<Rightarrow> Inr v)"

text \<open>
  \<^verbatim>\<open>strrchr(pathname, '/')\<close> splits a path at its last separator.
\<close>

definition after_rindex :: "string \<Rightarrow> string" where
  "after_rindex p = rev (takeWhile (\<lambda>c. c \<noteq> CHR ''/'') (rev p))"

definition before_rindex :: "string \<Rightarrow> string" where
  "before_rindex p = rev (tl (dropWhile (\<lambda>c. c \<noteq> CHR ''/'') (rev p)))"

section \<open>Flattening the tree\<close>

type_synonym farray = "nat \<Rightarrow> filetype"

definition waste_node :: "env \<Rightarrow> filetype" where
  "waste_node e = (waste_junk e)\<lparr>valid := 0\<rparr>"

text \<open>
  The \<^verbatim>\<open>for\<close> loop of \<^verbatim>\<open>tree_to_array\<close> that copies the children of the current
  node into the queue (of 60 cells).
\<close>

fun enqueue_children ::
  "(nat \<Rightarrow> filetype) \<Rightarrow> nat \<Rightarrow> nat list \<Rightarrow> farray \<times> nat \<Rightarrow> error + (farray \<times> nat)" where
  "enqueue_children hp front [] (queue, rear) = Inr (queue, rear)"
| "enqueue_children hp front (c # cs) (queue, rear) =
     (let rear = (if rear < front then front else rear) in
      if 60 \<le> rear then Inl Fault
      else enqueue_children hp front cs (queue(rear := hp c), rear + 1))"

text \<open>The \<^verbatim>\<open>while (i < 5)\<close> loops that append invalid entries.\<close>

function pad_waste :: "env \<Rightarrow> nat \<Rightarrow> farray \<times> nat \<Rightarrow> error + (farray \<times> nat)" where
  "pad_waste e i (queue, rear) =
     (if i < 5 then
        (if 60 \<le> rear then Inl Fault
         else pad_waste e (i + 1) (queue(rear := waste_node e), rear + 1))
      else Inr (queue, rear))"
  by pat_completeness auto
termination
  by (relation "measure (\<lambda>(e, i, qr). 5 - i)") auto

declare pad_waste.simps [simp del]

definition enqueue :: "env \<Rightarrow> (nat \<Rightarrow> filetype) \<Rightarrow> nat \<Rightarrow> filetype \<Rightarrow> farray \<times> nat
    \<Rightarrow> error + (farray \<times> nat)" where
  "enqueue e hp front curr_node qr =
     (if valid curr_node \<noteq> 0 then
        (case enqueue_children hp front (children curr_node) qr of
           Inl err \<Rightarrow> Inl err
         | Inr qr' \<Rightarrow> pad_waste e (length (children curr_node)) qr')
      else pad_waste e 0 qr)"

text \<open>
  \<^verbatim>\<open>tree_to_array(queue, front, rear, index)\<close>, on the state
  \<open>(queue, *front, *rear, *index, file_array)\<close>. The first test of the source compares
  the two pointers, not the integers they point to; the second stops at 31 entries.
\<close>

function tree_to_array :: "env \<Rightarrow> (nat \<Rightarrow> filetype)
    \<Rightarrow> farray \<times> nat \<times> nat \<times> nat \<times> farray
    \<Rightarrow> error + (farray \<times> nat \<times> nat \<times> nat \<times> farray)" where
  "tree_to_array e hp (queue, front, rear, index, fa) =
     (if rear_below_front e then Inr (queue, front, rear, index, fa)
      else if 30 < index then Inr (queue, front, rear, index, fa)
      else if 60 \<le> front then Inl Fault
      else
        (let curr_node = queue front in
         if index + 1 < 6 then
           (case enqueue e hp (front + 1) curr_node (queue, rear) of
              Inl err \<Rightarrow> Inl err
            | Inr (queue', rear') \<Rightarrow>
                tree_to_array e hp (queue', front + 1, rear', index + 1, fa(index := curr_node)))
         else tree_to_array e hp (queue, front + 1, rear, index + 1, fa(index := curr_node))))"
  by pat_completeness auto
termination
  by (relation "measure (\<lambda>(e, hp, queue, front, rear, index, fa). 31 - index)") auto

declare tree_to_array.simps [simp del]

text \<open>
  \<^verbatim>\<open>save_contents\<close>: the queue is allocated, its first cell gets a copy of the root,
  and \<^verbatim>\<open>tree_to_array\<close> runs from \<open>front = rear = index = 0\<close>. The two \<^verbatim>\<open>fwrite\<close>
  calls store the first 31 cells of \<open>file_array\<close> and the superblock as they are.
  The entries of the tree are read from \<open>heap\<close> and the cells written are those of
  \<open>file_array\<close>, two stores: see the conventions at the head of the theory for the
  sessions in which that is so.
\<close>

definition save_contents :: "env \<Rightarrow> fs \<Rightarrow> error + fs" where
  "save_contents e s =
     (case tree_to_array e (heap s) ((fresh_queue e)(0 := heap s (root s)), 0, 0, 0, file_array s) of
        Inl err \<Rightarrow> Inl err
      | Inr (queue, front, rear, index, fa) \<Rightarrow> Inr (s\<lparr>file_array := fa\<rparr>))"

text \<open>
  \<^verbatim>\<open>initialize_root_directory\<close>; \<open>a\<close> is the address \<^verbatim>\<open>malloc\<close> returns. The fields
  the source does not assign keep what the store held there.
\<close>

definition S_IFDIR :: nat where
  "S_IFDIR = 16384"

definition initialize_root_directory :: "env \<Rightarrow> nat \<Rightarrow> fs \<Rightarrow> error + fs" where
  "initialize_root_directory e a s =
     save_contents e
       (s\<lparr>spblock := (spblock s)\<lparr>inode_bitmap := (inode_bitmap (spblock s))(1 := CHR 0x01)\<rparr>,
          root := a,
          heap := (heap s)(a := (heap s a)\<lparr>valid := 1, test := ''test'', path := ''/'', name := ''/'',
            children := [], spare_cells := 0, num_links := 2, parent := None,
            ftype := ''directory'',
            permissions := S_IFDIR + 511, user_id := uid e, group_id := gid e,
            a_time := now e, m_time := now e, c_time := now e, b_time := now e,
            size_bytes := 0, number := 2, blocks := 0\<rparr>)\<rparr>)"

section \<open>Handlers on the tree\<close>

text \<open>
  The search loop of \<^verbatim>\<open>myrmdir\<close>, on the children from position \<open>index\<close> on:
  \<open>index\<close> stops at the first child whose name is \<^verbatim>\<open>folder_delete\<close>, or at
  \<^verbatim>\<open>num_children\<close>. Each round that does not find the name ends with
  \<^verbatim>\<open>index++; curr_child = (parent->children)[index];\<close>, so when no child has the name
  the last round loads \<^verbatim>\<open>children[num_children]\<close>: a cell of the array only when
  \<open>spare\<close>, the number of cells behind the first \<^verbatim>\<open>num_children\<close>, is not 0. (The
  pointer loaded there is not used.)
\<close>

fun child_index :: "(nat \<Rightarrow> filetype) \<Rightarrow> nat list \<Rightarrow> nat \<Rightarrow> string \<Rightarrow> nat \<Rightarrow> error + nat" where
  "child_index hp [] spare nm index = (if spare = 0 then Inl Fault else Inr index)"
| "child_index hp (c # cs) spare nm index =
     (if name (hp c) = nm then Inr index else child_index hp cs spare nm (index + 1))"

text \<open>
  The loop \<^verbatim>\<open>for (i = index + 1; i < num_children; i++) children[i - 1] = children[i]\<close>.
\<close>

function shift_left :: "nat list \<Rightarrow> nat \<Rightarrow> nat list" where
  "shift_left cs i = (if i < length cs then shift_left (cs[i - 1 := cs ! i]) (i + 1) else cs)"
  by pat_completeness auto
termination
  by (relation "measure (\<lambda>(cs, i). length cs - i)") auto

declare shift_left.simps [simp del]

definition myrmdir :: "env \<Rightarrow> string \<Rightarrow> fs \<Rightarrow> error + (int \<times> fs)" where
  "myrmdir e p s =
     (if CHR ''/'' \<notin> set p then Inl Fault
      else
        (let folder_delete = after_rindex p;
             pathname = before_rindex p;
             pathname = (if pathname = [] then ''/'' else pathname)
         in case used (filetype_from_path s pathname) of
              Inl err \<Rightarrow> Inl err
            | Inr None \<Rightarrow> Inl ENOENT
            | Inr (Some par) \<Rightarrow>
                (let cs = children (heap s par) in
                 if cs = [] then Inl ENOENT
                 else
                   (case child_index (heap s) cs (spare_cells (heap s par)) folder_delete 0 of
                      Inl err \<Rightarrow> Inl err
                    | Inr index \<Rightarrow>
                        if index < length cs then
                          (if children (heap s (cs ! index)) \<noteq> [] then Inl ENOTEMPTY
                           else
                             (case save_contents e
                                     (s\<lparr>heap := (heap s)(par := (heap s par)
                                        \<lparr>children := take (length cs - 1) (shift_left cs (index + 1)),
                                         spare_cells := spare_cells (heap s par) + 1\<rparr>)\<rparr>) of
                                Inl err \<Rightarrow> Inl err
                              | Inr s' \<Rightarrow> Inr (0, s')))
                        else Inl ENOENT))))"

text \<open>
  \<^verbatim>\<open>myopen\<close> copies the path into \<^verbatim>\<open>malloc(sizeof(path) + 1)\<close> bytes with
  \<^verbatim>\<open>strcpy\<close>, calls the resolver and drops the pointer it returns (so that a call of
  the resolver that ended without a \<^verbatim>\<open>return\<close> does no harm here).
\<close>

definition myopen :: "string \<Rightarrow> fs \<Rightarrow> error + (int \<times> fs)" where
  "myopen p s =
     (if sizeof_ptr + 1 < length p + 1 then Inl Fault
      else
        (case filetype_from_path s p of
           Inl err \<Rightarrow> (if err = NoValue then Inr (0, s) else Inl err)
         | Inr file \<Rightarrow> Inr (0, s)))"

text \<open>
  \<^verbatim>\<open>myrename\<close>. \<^verbatim>\<open>strrchr(pathname2, '/')\<close> is NULL for a new path without a
  separator, and \<^verbatim>\<open>rindex2 + 1\<close> is then no string. The last segment of the new path
  is copied into \<^verbatim>\<open>char name[100]\<close> and then the new path into \<^verbatim>\<open>char path[100]\<close>,
  both with \<^verbatim>\<open>strcpy\<close>.
\<close>

definition myrename :: "env \<Rightarrow> string \<Rightarrow> string \<Rightarrow> fs \<Rightarrow> error + (int \<times> fs)" where
  "myrename e from_path to_path s =
     (case used (filetype_from_path s from_path) of
        Inl err \<Rightarrow> Inl err
      | Inr None \<Rightarrow> Inl ENOENT
      | Inr (Some file) \<Rightarrow>
          (if CHR ''/'' \<notin> set to_path then Inl Fault
           else if 100 < length (after_rindex to_path) + 1 then Inl Fault
           else if 100 < length to_path + 1 then Inl Fault
           else
             (case save_contents e
                     (s\<lparr>heap := (heap s)(file := (heap s file)
                        \<lparr>path := to_path, name := after_rindex to_path\<rparr>)\<rparr>) of
                Inl err \<Rightarrow> Inl err
              | Inr s' \<Rightarrow> Inr (0, s'))))"

section \<open>Reading and writing file content\<close>

text \<open>
  \<^verbatim>\<open>&spblock.datablocks[block_size * file->datablocks[i]]\<close>: the index \<open>i\<close> into the
  16 block references and the block number found there are both checked.
\<close>

definition block_ref :: "filetype \<Rightarrow> int \<Rightarrow> error + nat" where
  "block_ref f i =
     (if 0 \<le> i \<and> i < 16 then
        (let b = datablocks f (nat i) in
         if 0 \<le> b \<and> b < 100 then Inr (block_size * nat b) else Inl Fault)
      else Inl Fault)"

text \<open>The characters of a buffer up to its first NUL (what \<^verbatim>\<open>strlen\<close> counts).\<close>

definition c_str :: "string \<Rightarrow> string" where
  "c_str buf = takeWhile (\<lambda>c. c \<noteq> NUL) buf"

text \<open>
  \<^verbatim>\<open>strlen\<close> of the string that starts at arena address \<open>a\<close>: the scan must meet a
  NUL before the arena ends.
\<close>

fun scan_nul :: "(nat \<Rightarrow> char) \<Rightarrow> nat \<Rightarrow> nat \<Rightarrow> nat option" where
  "scan_nul m a 0 = None"
| "scan_nul m a (Suc k) =
     (if m a = NUL then Some 0 else map_option Suc (scan_nul m (Suc a) k))"

definition c_strlen :: "(nat \<Rightarrow> char) \<Rightarrow> nat \<Rightarrow> nat option" where
  "c_strlen m a = scan_nul m a (arena_size - a)"

text \<open>\<^verbatim>\<open>strcpy\<close> of a string (and its terminator) to arena address \<open>a\<close>.\<close>

definition strcpy_arena :: "(nat \<Rightarrow> char) \<Rightarrow> nat \<Rightarrow> string \<Rightarrow> error + (nat \<Rightarrow> char)" where
  "strcpy_arena m a str =
     (if a + length str < arena_size then
        Inr (\<lambda>x. if a \<le> x \<and> x < a + length str then str ! (x - a)
                 else if x = a + length str then NUL else m x)
      else Inl Fault)"

definition strcat_arena :: "(nat \<Rightarrow> char) \<Rightarrow> nat \<Rightarrow> string \<Rightarrow> error + (nat \<Rightarrow> char)" where
  "strcat_arena m a str =
     (case c_strlen m a of None \<Rightarrow> Inl Fault | Some l \<Rightarrow> strcpy_arena m (a + l) str)"

text \<open>
  What \<^verbatim>\<open>strncat(str, &arena[a], n)\<close> appends: at most \<open>n\<close> characters, fewer when a
  NUL comes first.
\<close>

fun c_strn :: "(nat \<Rightarrow> char) \<Rightarrow> nat \<Rightarrow> nat \<Rightarrow> string" where
  "c_strn m a 0 = []"
| "c_strn m a (Suc n) = (if m a = NUL then [] else m a # c_strn m (Suc a) n)"

text \<open>
  The string \<^verbatim>\<open>strcat\<close> reads from \<^verbatim>\<open>cpystr\<close> behind the characters
  \<^verbatim>\<open>strncpy\<close> put there: the uninitialised cells from \<open>i\<close> up to the first NUL among
  the \<open>k\<close> cells left in the buffer.
\<close>

fun junk_tail :: "(nat \<Rightarrow> char) \<Rightarrow> nat \<Rightarrow> nat \<Rightarrow> string option" where
  "junk_tail j i 0 = None"
| "junk_tail j i (Suc k) =
     (if j i = NUL then Some [] else map_option ((#) (j i)) (junk_tail j (Suc i) k))"

text \<open>
  The body of \<^verbatim>\<open>mywrite\<close> between the lookup and \<^verbatim>\<open>save_contents\<close>, on the arena
  and the file's struct; \<open>buf\<close> is the string \<^verbatim>\<open>strlen\<close> and \<^verbatim>\<open>strcpy\<close> see.
  (\<^verbatim>\<open>mywrite\<close> itself, below, begins like \<^verbatim>\<open>myopen\<close> with the copy of the path into
  \<^verbatim>\<open>sizeof(path) + 1\<close> bytes.)
\<close>

definition write_data :: "env \<Rightarrow> string \<Rightarrow> (nat \<Rightarrow> char) \<Rightarrow> filetype
    \<Rightarrow> error + ((nat \<Rightarrow> char) \<times> filetype)" where
  "write_data e buf m f =
     (if size_bytes f = 0 then
        (case block_ref f 0 of
           Inl err \<Rightarrow> Inl err
         | Inr a \<Rightarrow>
             (case strcpy_arena m a buf of
                Inl err \<Rightarrow> Inl err
              | Inr m' \<Rightarrow> Inr (m', f\<lparr>size_bytes := length buf, blocks := blocks f + 1\<rparr>)))
      else
        (let currblk = blocks f - 1;
             len1 = 1024 - size_bytes f mod 1024
         in
         if length buf \<le> len1 then
           (case block_ref f currblk of
              Inl err \<Rightarrow> Inl err
            | Inr a \<Rightarrow>
                (case strcat_arena m a buf of
                   Inl err \<Rightarrow> Inl err
                 | Inr m' \<Rightarrow> Inr (m', f\<lparr>size_bytes := size_bytes f + length buf\<rparr>)))
         else
           (case junk_tail (cpystr_junk e) (len1 - 1) (1024 - (len1 - 1)) of
              None \<Rightarrow> Inl Fault
            | Some tail \<Rightarrow>
                (case block_ref f currblk of
                   Inl err \<Rightarrow> Inl err
                 | Inr a \<Rightarrow>
                     (case strcat_arena m a (take (len1 - 1) buf @ tail) of
                        Inl err \<Rightarrow> Inl err
                      | Inr m1 \<Rightarrow>
                          (if 1024 \<le> length buf then Inl Fault
                           else
                             (case block_ref f (currblk + 1) of
                                Inl err \<Rightarrow> Inl err
                              | Inr a2 \<Rightarrow>
                                  (case strcpy_arena m1 a2 (drop (len1 - 1) buf) of
                                     Inl err \<Rightarrow> Inl err
                                   | Inr m2 \<Rightarrow>
                                       Inr (m2, f\<lparr>size_bytes := size_bytes f + length buf,
                                                  blocks := blocks f + 1\<rparr>)))))))))"

definition mywrite :: "env \<Rightarrow> string \<Rightarrow> string \<Rightarrow> fs \<Rightarrow> error + (int \<times> fs)" where
  "mywrite e p buf s =
     (if sizeof_ptr + 1 < length p + 1 then Inl Fault
      else
        (case used (filetype_from_path s p) of
           Inl err \<Rightarrow> Inl err
         | Inr None \<Rightarrow> Inl ENOENT
         | Inr (Some file) \<Rightarrow>
             (case write_data e (c_str buf) (sb_datablocks (spblock s)) (heap s file) of
                Inl err \<Rightarrow> Inl err
              | Inr (m', f') \<Rightarrow>
                  (case save_contents e
                          (s\<lparr>spblock := (spblock s)\<lparr>sb_datablocks := m'\<rparr>,
                             heap := (heap s)(file := f')\<rparr>) of
                     Inl err \<Rightarrow> Inl err
                   | Inr s' \<Rightarrow> Inr (int (length (c_str buf)), s')))))"

text \<open>
  The \<^verbatim>\<open>for (i = 0; i < blocks - 1; i++)\<close> loop of \<^verbatim>\<open>myread\<close>; it returns the
  final \<open>i\<close> with the string collected so far.
\<close>

function read_loop :: "(nat \<Rightarrow> char) \<Rightarrow> filetype \<Rightarrow> int \<Rightarrow> string \<Rightarrow> error + (int \<times> string)" where
  "read_loop m f i str =
     (if i < blocks f - 1 then
        (case block_ref f i of
           Inl err \<Rightarrow> Inl err
         | Inr a \<Rightarrow> read_loop m f (i + 1) (str @ c_strn m a 1024))
      else Inr (i, str))"
  by pat_completeness auto
termination
  by (relation "measure (\<lambda>(m, f, i, str). nat (blocks f - 1 - i))") auto

declare read_loop.simps [simp del]

text \<open>
  \<^verbatim>\<open>myread\<close> gives back what it copied into \<^verbatim>\<open>buf\<close> and its return value,
  \<^verbatim>\<open>file->size\<close>. The arguments \<^verbatim>\<open>size\<close> and \<^verbatim>\<open>offset\<close> are not used by the source.
  It begins with the copy of the path into \<^verbatim>\<open>sizeof(path) + 1\<close> bytes. The string is
  collected in \<^verbatim>\<open>malloc(1024 * blocks)\<close> bytes: with \<^verbatim>\<open>blocks\<close> at 0 or below there
  is no room for the terminator \<^verbatim>\<open>strcpy(str, "")\<close> writes; with \<^verbatim>\<open>blocks\<close> above 0
  the at most \<open>1024 * (blocks - 1) + 1023\<close> characters and their terminator fit.
  The string returned here is what \<^verbatim>\<open>strcpy(buf, str)\<close> then copies into the buffer of
  the caller, whose length is the caller's affair and not part of the state.
\<close>

definition myread :: "string \<Rightarrow> fs \<Rightarrow> error + (string \<times> int)" where
  "myread p s =
     (if sizeof_ptr + 1 < length p + 1 then Inl Fault
      else
        (case used (filetype_from_path s p) of
           Inl err \<Rightarrow> Inl err
         | Inr None \<Rightarrow> Inl ENOENT
         | Inr (Some file) \<Rightarrow>
             (let f = heap s file; m = sb_datablocks (spblock s) in
              if blocks f \<le> 0 then Inl Fault
              else
                (case read_loop m f 0 [] of
                   Inl err \<Rightarrow> Inl err
                 | Inr (i, str) \<Rightarrow>
                     (case block_ref f i of
                        Inl err \<Rightarrow> Inl err
                      | Inr a \<Rightarrow>
                          Inr (str @ c_strn m a (size_bytes f mod 1024), int (size_bytes f)))))))"

section \<open>Notions used in the statements\<close>

text \<open>
  The \<open>i\<close>-th of the five entries \<^verbatim>\<open>tree_to_array\<close> appends to the queue for the
  node \<open>n\<close>: a copy of its \<open>i\<close>-th child, or an invalid entry.
\<close>

definition padded_child :: "env \<Rightarrow> (nat \<Rightarrow> filetype) \<Rightarrow> filetype \<Rightarrow> nat \<Rightarrow> filetype" where
  "padded_child e hp n i =
     (if valid n = 0 then waste_node e
      else if i < length (children n) then hp (children n ! i)
      else waste_node e)"

text \<open>
  \<^verbatim>\<open>save_contents\<close> stays inside its queue of 60 cells on the tree of \<open>s\<close>.
\<close>

definition persistable :: "env \<Rightarrow> fs \<Rightarrow> bool" where
  "persistable e s = (case save_contents e s of Inl err \<Rightarrow> False | Inr s' \<Rightarrow> True)"

text \<open>
  Breadth-first order of the entries reachable from a list of addresses, without any
  padding: the order the specification describes for the slots behind the children of
  the root. \<open>fuel\<close> bounds the number of entries visited.
\<close>

fun bfs_order :: "(nat \<Rightarrow> filetype) \<Rightarrow> nat \<Rightarrow> nat list \<Rightarrow> nat list" where
  "bfs_order hp 0 todo = []"
| "bfs_order hp (Suc fuel) [] = []"
| "bfs_order hp (Suc fuel) (a # todo) = a # bfs_order hp fuel (todo @ children (hp a))"

text \<open>
  Resolution as the specification words it: the path behind the root marker is split
  at the separators, and the segments are looked up one after the other, each among the
  children of the entry found for the one before.
\<close>

function segments :: "string \<Rightarrow> string list" where
  "segments pn =
     (if CHR ''/'' \<in> set pn
      then takeWhile (\<lambda>c. c \<noteq> CHR ''/'') pn # segments (tl (dropWhile (\<lambda>c. c \<noteq> CHR ''/'') pn))
      else [pn])"
  by pat_completeness auto
termination
proof (relation "measure length")
  show "wf (measure length)" by simp
next
  fix pn :: string
  assume "CHR ''/'' \<in> set pn"
  then have "dropWhile (\<lambda>c. c \<noteq> CHR ''/'') pn \<noteq> []" by auto
  then have "length (tl (dropWhile (\<lambda>c. c \<noteq> CHR ''/'') pn))
      < length (dropWhile (\<lambda>c. c \<noteq> CHR ''/'') pn)"
    by (cases "dropWhile (\<lambda>c. c \<noteq> CHR ''/'') pn") auto
  also have "\<dots> \<le> length pn" by (rule length_dropWhile_le)
  finally show "(tl (dropWhile (\<lambda>c. c \<noteq> CHR ''/'') pn), pn) \<in> measure length" by simp
qed

declare segments.simps [simp del]

fun resolve_from :: "(nat \<Rightarrow> filetype) \<Rightarrow> nat \<Rightarrow> string list \<Rightarrow> nat option" where
  "resolve_from hp node [] = Some node"
| "resolve_from hp node (seg # segs) =
     (case find_child hp (children (hp node)) seg of
        None \<Rightarrow> None
      | Some c \<Rightarrow> resolve_from hp c segs)"

text \<open>
  What \<^verbatim>\<open>tree_to_array\<close> looks at in an entry: whether it is valid, and its children.
\<close>

definition shape :: "filetype \<Rightarrow> bool \<times> nat list" where
  "shape n = (valid n = 0, children n)"

definition qrel :: "error + (farray \<times> nat) \<Rightarrow> error + (farray \<times> nat) \<Rightarrow> bool" where
  "qrel a b =
     (case a of
        Inl err \<Rightarrow> isl b
      | Inr (q, r) \<Rightarrow>
          (case b of Inl err \<Rightarrow> False
           | Inr (q', r') \<Rightarrow> r = r' \<and> (\<forall>x. shape (q x) = shape (q' x))))"

text \<open>
  A valid root has at most five children, and each valid child of it has at most five
  children: the fan-out \<^verbatim>\<open>main\<close> reads back, for which the 60 cells of the queue
  suffice.
\<close>

definition fanout_ok :: "fs \<Rightarrow> bool" where
  "fanout_ok s =
     (valid (heap s (root s)) = 0 \<or>
      (length (children (heap s (root s))) \<le> 5 \<and>
       list_all (\<lambda>c. valid (heap s c) = 0 \<or> length (children (heap s c)) \<le> 5)
         (children (heap s (root s)))))"

text \<open>
  The arena holds the C string \<open>str\<close> at address \<open>a\<close>: its characters, none of them
  NUL, and the terminator behind them.
\<close>

definition cstr_at :: "(nat \<Rightarrow> char) \<Rightarrow> nat \<Rightarrow> string \<Rightarrow> bool" where
  "cstr_at m a str =
     (list_all (\<lambda>i. m (a + i) = str ! i) [0..<length str]
      \<and> m (a + length str) = NUL \<and> list_all (\<lambda>c. c \<noteq> NUL) str)"

section \<open>Concrete states\<close>

text \<open>
  Memory of zero bytes: what the globals hold when the process starts, and the
  content chosen here for memory the source reads uninitialised.
\<close>

definition zero_filetype :: filetype where
  "zero_filetype =
     \<lparr>valid = 0, test = [], path = [], name = [], children = [], spare_cells = 0,
      num_links = 0,
      parent = None, ftype = [], permissions = 0, user_id = 0, group_id = 0,
      a_time = 0, m_time = 0, c_time = 0, b_time = 0, size_bytes = 0,
      datablocks = (\<lambda>i. 0), number = 0, blocks = 0\<rparr>"

definition zero_env :: env where
  "zero_env =
     \<lparr>rear_below_front = False, fresh_queue = (\<lambda>i. zero_filetype),
      waste_junk = zero_filetype, cpystr_junk = (\<lambda>i. NUL), now = 0, uid = 0, gid = 0\<rparr>"

definition zero_superblock :: superblock where
  "zero_superblock =
     \<lparr>sb_datablocks = (\<lambda>i. NUL), data_bitmap = (\<lambda>i. NUL), inode_bitmap = (\<lambda>i. NUL)\<rparr>"

text \<open>The globals when the process starts.\<close>

definition zero_fs :: fs where
  "zero_fs = \<lparr>spblock = zero_superblock, root = 0, heap = (\<lambda>a. zero_filetype),
     file_array = (\<lambda>i. zero_filetype)\<rparr>"

text \<open>
  The superblock after the first start of the program: \<^verbatim>\<open>initialize_superblock\<close>,
  then the assignment \<^verbatim>\<open>spblock.inode_bitmap[1] = 1\<close> of
  \<^verbatim>\<open>initialize_root_directory\<close>.
\<close>

definition boot_superblock :: superblock where
  "boot_superblock =
     (initialize_superblock zero_superblock)
       \<lparr>inode_bitmap := (inode_bitmap (initialize_superblock zero_superblock))(1 := CHR 0x01)\<rparr>"

text \<open>
  An entry as \<^verbatim>\<open>mymkdir\<close> and \<^verbatim>\<open>mycreate\<close> fill it in: valid, with its path, name,
  children and parent, size 0 and no block in use. \<^verbatim>\<open>mycreate\<close> stores the result of
  \<^verbatim>\<open>find_free_db\<close> in each of the sixteen block references.
\<close>

definition entry :: "string \<Rightarrow> string \<Rightarrow> string \<Rightarrow> nat list \<Rightarrow> nat option \<Rightarrow> filetype" where
  "entry ty p n cs par =
     zero_filetype\<lparr>valid := 1, path := p, name := n, children := cs, parent := par,
       ftype := ty, datablocks := (\<lambda>i. 1)\<rparr>"

text \<open>
  A tree of seven entries: the root with the directories \<^verbatim>\<open>/a\<close> and \<^verbatim>\<open>/b\<close>, the
  file \<^verbatim>\<open>/a/c\<close>, and the files \<^verbatim>\<open>/b/d\<close>, \<^verbatim>\<open>/b/e\<close> and \<^verbatim>\<open>/b/f\<close>.
\<close>

definition demo_heap :: "nat \<Rightarrow> filetype" where
  "demo_heap = (\<lambda>a. zero_filetype)
     (100 := entry ''directory'' ''/'' ''/'' [101, 102] None,
      101 := entry ''directory'' ''/a'' ''a'' [103] (Some 100),
      102 := entry ''directory'' ''/b'' ''b'' [104, 105, 106] (Some 100),
      103 := entry ''file'' ''/a/c'' ''c'' [] (Some 101),
      104 := entry ''file'' ''/b/d'' ''d'' [] (Some 102),
      105 := entry ''file'' ''/b/e'' ''e'' [] (Some 102),
      106 := entry ''file'' ''/b/f'' ''f'' [] (Some 102))"

definition demo_fs :: fs where
  "demo_fs =
     \<lparr>spblock = boot_superblock, root = 100, heap = demo_heap,
      file_array = (\<lambda>i. zero_filetype)\<rparr>"

text \<open>
  The same tree, where the sixteen block references of \<^verbatim>\<open>/a/c\<close> are the blocks
  1 to 16.
\<close>

definition spread_fs :: fs where
  "spread_fs =
     demo_fs\<lparr>heap := (heap demo_fs)(103 := (heap demo_fs 103)\<lparr>datablocks := (\<lambda>i. int i + 1)\<rparr>)\<rparr>"

text \<open>
  The superblock once \<^verbatim>\<open>mymkdir\<close> or \<^verbatim>\<open>mycreate\<close> has run: \<^verbatim>\<open>find_free_inode\<close> has
  marked inode 2. (\<^verbatim>\<open>find_free_db\<close> finds the byte 1 that
  \<^verbatim>\<open>initialize_root_directory\<close> put into cell 1 of the inode bitmap, and changes
  nothing.)
\<close>

definition used_superblock :: superblock where
  "used_superblock = snd (find_free_inode boot_superblock)"

text \<open>
  The tree after \<^verbatim>\<open>mkdir\<close> of \<^verbatim>\<open>/a\<close>, \<^verbatim>\<open>/b\<close>, \<^verbatim>\<open>/c\<close>, \<^verbatim>\<open>/d\<close> and \<^verbatim>\<open>/e\<close> and then of
  \<open>k\<close> directories \<^verbatim>\<open>/e/x\<close>, \<^verbatim>\<open>/e/xx\<close>, \<^verbatim>\<open>/e/xxx\<close>, ... in a session that started
  without \<^verbatim>\<open>file_structure.bin\<close>. Every array of children is as \<^verbatim>\<open>add_child\<close> leaves
  it, without a spare cell. (\<open>file_array\<close> is only ever written by the handlers, so
  what it holds is of no consequence for what they do.)
\<close>

definition wide_heap :: "nat \<Rightarrow> nat \<Rightarrow> filetype" where
  "wide_heap k =
     (\<lambda>a. if 110 \<le> a \<and> a < 110 + k
          then entry ''directory'' (''/e/'' @ replicate (a - 109) CHR ''x'')
                 (replicate (a - 109) CHR ''x'') [] (Some 105)
          else zero_filetype)
     (100 := entry ''directory'' ''/'' ''/'' [101, 102, 103, 104, 105] None,
      101 := entry ''directory'' ''/a'' ''a'' [] (Some 100),
      102 := entry ''directory'' ''/b'' ''b'' [] (Some 100),
      103 := entry ''directory'' ''/c'' ''c'' [] (Some 100),
      104 := entry ''directory'' ''/d'' ''d'' [] (Some 100),
      105 := entry ''directory'' ''/e'' ''e'' [110..<110 + k] (Some 100))"

definition wide_fs :: "nat \<Rightarrow> fs" where
  "wide_fs k =
     \<lparr>spblock = used_superblock, root = 100, heap = wide_heap k,
      file_array = (\<lambda>i. zero_filetype)\<rparr>"

text \<open>
  The tree after \<^verbatim>\<open>mycreate\<close> of one file under the root, with a name of 33
  characters, in a session that started without \<^verbatim>\<open>file_structure.bin\<close>.
\<close>

definition long_path :: string where
  "long_path = ''/minutes_of_the_monday_meeting.txt''"

definition notes_fs :: fs where
  "notes_fs =
     \<lparr>spblock = used_superblock, root = 100,
      heap = (\<lambda>a. zero_filetype)
        (100 := entry ''directory'' ''/'' ''/'' [101] None,
         101 := entry ''file'' long_path (tl long_path) [] (Some 100)),
      file_array = (\<lambda>i. zero_filetype)\<rparr>"

section \<open>Allocation: what the two functions return\<close>

lemma find_free_inode_always_2: "fst (find_free_inode sb) = 2"
  by (simp add: find_free_inode_def Let_def)

lemma find_free_db_always_1: "fst (find_free_db sb) = 1"
  by (simp add: find_free_db_def Let_def)

lemma find_free_db_data_bitmap: "data_bitmap (snd (find_free_db sb)) = data_bitmap sb"
  by (simp add: find_free_db_def Let_def)

lemma find_append_None: "List.find P xs = None \<Longrightarrow> List.find P (xs @ ys) = List.find P ys"
  by (induction xs) (auto split: if_splits)

lemma lowest_free_Some:
  assumes "lo \<le> i" "i < 100" "bm i = CHR ''0''" "\<forall>j. lo \<le> j \<and> j < i \<longrightarrow> bm j \<noteq> CHR ''0''"
  shows "lowest_free bm lo = Some i"
proof -
  have "[lo..<100] = [lo..<i] @ [i..<100]"
    using assms(1,2) by (metis le_Suc_ex less_imp_le_nat upt_add_eq_append)
  then have "[lo..<100] = [lo..<i] @ i # [Suc i..<100]"
    using assms(2) by (simp add: upt_conv_Cons)
  moreover have "List.find (\<lambda>i. bm i = CHR ''0'') [lo..<i] = None"
    using assms(4) by (simp add: find_None_iff)
  ultimately show ?thesis
    using assms(3) by (simp add: lowest_free_def find_append_None)
qed

text \<open>
  C3 (allocate_inode returns the lowest free inode and marks it). On the superblock of
  a fresh file system the first call returns 2 and marks it. The second call returns 2
  again and changes nothing, although inode 3 is the lowest free one: at the second
  allocation the function neither returns nor marks the lowest free inode.
\<close>

theorem C3_find_free_inode_second_call:
  "find_free_inode boot_superblock =
     (2, boot_superblock\<lparr>inode_bitmap := (inode_bitmap boot_superblock)(2 := CHR ''1'')\<rparr>)
   \<and> find_free_inode (snd (find_free_inode boot_superblock))
       = (2, snd (find_free_inode boot_superblock))
   \<and> lowest_free (inode_bitmap (snd (find_free_inode boot_superblock))) 2 = Some 3"
proof -
  have b: "inode_bitmap boot_superblock 2 = CHR ''0''" "inode_bitmap boot_superblock 3 = CHR ''0''"
    by (simp_all add: boot_superblock_def initialize_superblock_def)
  have 1: "find_free_inode boot_superblock =
     (2, boot_superblock\<lparr>inode_bitmap := (inode_bitmap boot_superblock)(2 := CHR ''1'')\<rparr>)"
    using b by (simp add: find_free_inode_def Let_def)
  have 2: "find_free_inode (snd (find_free_inode boot_superblock))
       = (2, snd (find_free_inode boot_superblock))"
    by (simp add: 1) (simp add: find_free_inode_def Let_def)
  have 3: "lowest_free (inode_bitmap (snd (find_free_inode boot_superblock))) 2 = Some 3"
  proof (rule lowest_free_Some)
    show "\<forall>j. 2 \<le> j \<and> j < 3 \<longrightarrow> inode_bitmap (snd (find_free_inode boot_superblock)) j \<noteq> CHR ''0''"
    proof (intro allI impI)
      fix j :: nat
      assume "2 \<le> j \<and> j < 3"
      then have "j = 2" by arith
      then show "inode_bitmap (snd (find_free_inode boot_superblock)) j \<noteq> CHR ''0''"
        by (simp add: 1)
    qed
  qed (simp_all add: 1 b)
  from 1 2 3 show ?thesis by blast
qed

text \<open>
  C2 (allocate_block returns the lowest free data block and marks it in the data bitmap).
  On the superblock of a fresh file system the call returns 1 and leaves the whole
  superblock as it was: block 1 is still free in the data bitmap afterwards, and the next
  call returns block 1 again.
\<close>

theorem C2_find_free_db_marks_nothing:
  "find_free_db boot_superblock = (1, boot_superblock)
   \<and> data_bitmap (snd (find_free_db boot_superblock)) 1 = CHR ''0''
   \<and> fst (find_free_db (snd (find_free_db boot_superblock))) = 1"
proof -
  have 1: "find_free_db boot_superblock = (1, boot_superblock)"
    by (simp add: find_free_db_def Let_def boot_superblock_def initialize_superblock_def)
  have 2: "data_bitmap boot_superblock 1 = CHR ''0''"
    by (simp add: boot_superblock_def initialize_superblock_def)
  from 1 2 show ?thesis by simp
qed

section \<open>Path resolution and the directory scan: lemmas\<close>

lemma walk_not_Exited: "walk hp c pn \<noteq> Inl Exited"
proof (induction hp c pn rule: walk.induct)
  case (1 hp curr_node pn)
  show ?case
    using "1.IH" by (subst walk.simps) (auto split: option.splits)
qed

lemma filetype_from_path_absolute:
  "p \<noteq> [] \<Longrightarrow> hd p = CHR ''/'' \<Longrightarrow> filetype_from_path s p \<noteq> Inl Exited"
  by (simp add: filetype_from_path_def Let_def walk_not_Exited)

lemma walk_short: "length pn < 100 \<Longrightarrow> walk hp c pn = Inl NoValue \<or> (\<exists>r. walk hp c pn = Inr r)"
proof (induction "length pn" arbitrary: c pn rule: less_induct)
  case less
  let ?seg = "takeWhile (\<lambda>c. c \<noteq> CHR ''/'') pn"
  let ?rest = "tl (dropWhile (\<lambda>c. c \<noteq> CHR ''/'') pn)"
  show ?case
  proof (cases "pn \<noteq> [] \<and> CHR ''/'' \<in> set pn")
    case False
    then show ?thesis
      using less.prems by (subst (1 2) walk.simps) auto
  next
    case True
    have seg: "length ?seg < 100"
      using less.prems length_takeWhile_le [of "\<lambda>c. c \<noteq> CHR ''/''" pn] by arith
    from True have "dropWhile (\<lambda>c. c \<noteq> CHR ''/'') pn \<noteq> []" by auto
    then have "length ?rest < length (dropWhile (\<lambda>c. c \<noteq> CHR ''/'') pn)"
      by (cases "dropWhile (\<lambda>c. c \<noteq> CHR ''/'') pn") auto
    also have "\<dots> \<le> length pn" by (rule length_dropWhile_le)
    finally have lt: "length ?rest < length pn" .
    have ih: "\<And>c'. walk hp c' ?rest = Inl NoValue \<or> (\<exists>r. walk hp c' ?rest = Inr r)"
      using lt less.prems by (intro less.hyps) auto
    show ?thesis
    proof (cases "find_child hp (children (hp c)) ?seg")
      case None
      then show ?thesis
        using True seg by (subst (1 2) walk.simps) simp
    next
      case (Some c')
      then show ?thesis
        using True seg ih [of c'] by (subst (1 2) walk.simps) simp
    qed
  qed
qed

lemma myopen_abs:
  assumes "p \<noteq> []" "hd p = CHR ''/''" "length p \<le> sizeof_ptr"
  shows "myopen p s = Inr (0, s)"
proof (cases "p = ''/''")
  case True
  then show ?thesis
    by (simp add: myopen_def filetype_from_path_def sizeof_ptr_def)
next
  case False
  let ?pn = "if last (tl p) = CHR ''/'' then butlast (tl p) else tl p"
  have "length ?pn < 100"
    using assms(3) by (auto simp: sizeof_ptr_def)
  from walk_short [OF this, of "heap s" "root s"]
  have "filetype_from_path s p = Inl NoValue \<or> (\<exists>r. filetype_from_path s p = Inr r)"
    using assms(1,2) False by (simp add: filetype_from_path_def Let_def)
  then show ?thesis
    using assms(3) by (auto simp: myopen_def)
qed

lemma child_index_None:
  "find_child hp cs nm = None \<Longrightarrow>
   child_index hp cs spare nm k = (if spare = 0 then Inl Fault else Inr (k + length cs))"
  by (induction cs arbitrary: k) (auto split: if_splits)

lemma child_index_Some:
  "find_child hp cs nm = Some t \<Longrightarrow>
     \<exists>i. child_index hp cs spare nm k = Inr (k + i) \<and> i < length cs \<and> cs ! i = t
       \<and> name (hp t) = nm \<and> (\<forall>j < i. name (hp (cs ! j)) \<noteq> nm)"
proof (induction cs arbitrary: k)
  case Nil
  then show ?case by simp
next
  case (Cons c cs)
  show ?case
  proof (cases "name (hp c) = nm")
    case True
    with Cons.prems show ?thesis by (intro exI [of _ 0]) simp
  next
    case False
    with Cons.prems have f: "find_child hp cs nm = Some t" by simp
    from Cons.IH [OF f, of "Suc k"] obtain i where
      i: "child_index hp cs spare nm (Suc k) = Inr (Suc k + i)" "i < length cs" "cs ! i = t"
        "name (hp t) = nm" "\<forall>j < i. name (hp (cs ! j)) \<noteq> nm"
      by blast
    have "\<forall>j < Suc i. name (hp ((c # cs) ! j)) \<noteq> nm"
      using False i(5) by (auto simp: nth_Cons split: nat.splits)
    then show ?thesis
      using False i by (intro exI [of _ "Suc i"]) simp
  qed
qed

lemma shift_left_eq:
  "1 \<le> i \<Longrightarrow> i \<le> length cs \<Longrightarrow> shift_left cs i = take (i - 1) cs @ drop i cs @ [last cs]"
proof (induction cs i rule: shift_left.induct)
  case (1 cs i)
  from "1.prems" obtain k where k: "i = Suc k"
    by (cases i) auto
  show ?case
  proof (cases "i < length cs")
    case True
    let ?cs = "cs[i - 1 := cs ! i]"
    have ih: "shift_left ?cs (i + 1) = take i ?cs @ drop (i + 1) ?cs @ [last ?cs]"
      using "1.IH" [OF True] "1.prems" True by simp
    have a: "take i ?cs = take (i - 1) cs @ [cs ! i]"
      using True k by (simp add: take_Suc_conv_app_nth)
    have b: "drop (i + 1) ?cs = drop (i + 1) cs"
      using "1.prems" by simp
    have c: "last ?cs = last cs"
    proof -
      from True have ne: "cs \<noteq> []" by auto
      from True k have "i - 1 \<noteq> length cs - 1" by arith
      with ne show ?thesis by (simp add: last_list_update)
    qed
    have d: "drop i cs = cs ! i # drop (i + 1) cs"
      using True by (simp add: Cons_nth_drop_Suc)
    show ?thesis
      using True ih a b c d by (subst shift_left.simps) simp
  next
    case False
    with "1.prems" have n: "i = length cs" by simp
    with k have "cs \<noteq> []" by auto
    then have "butlast cs @ [last cs] = cs" by simp
    then have "take (i - 1) cs @ drop i cs @ [last cs] = cs"
      using n by (simp add: butlast_conv_take)
    then show ?thesis
      using n by (subst shift_left.simps) simp
  qed
qed

lemma splice_eq:
  assumes "i < length cs"
  shows "take (length cs - 1) (shift_left cs (i + 1)) = take i cs @ drop (Suc i) cs"
proof -
  have "shift_left cs (i + 1) = take i cs @ drop (Suc i) cs @ [last cs]"
    using shift_left_eq [of "i + 1" cs] assms by simp
  moreover have "length (take i cs @ drop (Suc i) cs) = length cs - 1"
    using assms by simp
  ultimately show ?thesis
    by (metis append.assoc append_eq_conv_conj)
qed

section \<open>The queue of \<^verbatim>\<open>tree_to_array\<close>: lemmas\<close>

lemma pad_waste_eq:
  "rear + (5 - i) \<le> 60 \<Longrightarrow>
   pad_waste e i (queue, rear) =
     Inr (\<lambda>x. if rear \<le> x \<and> x < rear + (5 - i) then waste_node e else queue x, rear + (5 - i))"
proof (induction e i "(queue, rear)" arbitrary: queue rear rule: pad_waste.induct)
  case (1 e i queue rear)
  show ?case
  proof (cases "i < 5")
    case True
    with "1.prems" have r: "\<not> 60 \<le> rear" by arith
    have "pad_waste e (i + 1) (queue(rear := waste_node e), rear + 1) =
        Inr (\<lambda>x. if rear + 1 \<le> x \<and> x < rear + 1 + (5 - (i + 1)) then waste_node e
                  else (queue(rear := waste_node e)) x, rear + 1 + (5 - (i + 1)))"
      using "1.hyps" [OF True r] "1.prems" True by simp
    moreover have "(\<lambda>x. if rear + 1 \<le> x \<and> x < rear + 1 + (5 - (i + 1)) then waste_node e
                  else (queue(rear := waste_node e)) x)
        = (\<lambda>x. if rear \<le> x \<and> x < rear + (5 - i) then waste_node e else queue x)"
      using True by (auto simp: fun_eq_iff)
    moreover have "rear + 1 + (5 - (i + 1)) = rear + (5 - i)"
      using True by arith
    ultimately show ?thesis
      using True r by (subst pad_waste.simps) simp
  next
    case False
    then show ?thesis
      by (subst pad_waste.simps) (auto simp: fun_eq_iff)
  qed
qed

lemma enqueue_children_eq:
  "front \<le> rear \<Longrightarrow> rear + length cs \<le> 60 \<Longrightarrow>
   enqueue_children hp front cs (queue, rear) =
     Inr (\<lambda>x. if rear \<le> x \<and> x < rear + length cs then hp (cs ! (x - rear)) else queue x,
          rear + length cs)"
proof (induction cs arbitrary: queue rear)
  case Nil
  then show ?case by (auto simp: fun_eq_iff)
next
  case (Cons c cs)
  have "enqueue_children hp front cs (queue(rear := hp c), rear + 1) =
     Inr (\<lambda>x. if rear + 1 \<le> x \<and> x < rear + 1 + length cs then hp (cs ! (x - (rear + 1)))
               else (queue(rear := hp c)) x, rear + 1 + length cs)"
    using Cons.prems by (intro Cons.IH) auto
  moreover have "(\<lambda>x. if rear + 1 \<le> x \<and> x < rear + 1 + length cs then hp (cs ! (x - (rear + 1)))
               else (queue(rear := hp c)) x)
     = (\<lambda>x. if rear \<le> x \<and> x < rear + length (c # cs) then hp ((c # cs) ! (x - rear)) else queue x)"
    by (auto simp: fun_eq_iff nth_Cons' )
  ultimately show ?case
    using Cons.prems by (simp add: Let_def)
qed

lemma enqueue_children_jump:
  "cs \<noteq> [] \<Longrightarrow> rear < front \<Longrightarrow>
   enqueue_children hp front cs (queue, rear) = enqueue_children hp front cs (queue, front)"
  by (cases cs) (simp_all add: Let_def)

lemma enqueue_eq:
  assumes "valid n \<noteq> 0 \<longrightarrow> length (children n) \<le> 5"
    and "r' = (if valid n \<noteq> 0 \<and> children n \<noteq> [] \<and> rear < front then front else rear)"
    and "r' + 5 \<le> 60"
    and "valid n \<noteq> 0 \<longrightarrow> children n = [] \<or> front \<le> r'"
  shows "enqueue e hp front n (queue, rear) =
     Inr (\<lambda>x. if r' \<le> x \<and> x < r' + 5 then padded_child e hp n (x - r') else queue x, r' + 5)"
proof (cases "valid n = 0")
  case True
  then show ?thesis
    using assms pad_waste_eq [of rear 0 e queue]
    by (auto simp: enqueue_def padded_child_def fun_eq_iff)
next
  case False
  let ?cs = "children n"
  have k: "length ?cs \<le> 5" using assms(1) False by simp
  show ?thesis
  proof (cases "?cs = []")
    case True
    then show ?thesis
      using assms False pad_waste_eq [of rear 0 e queue]
      by (auto simp: enqueue_def padded_child_def fun_eq_iff)
  next
    case ne: False
    have fr: "front \<le> r'" using assms(4) False ne by simp
    have 1: "enqueue_children hp front ?cs (queue, rear) = enqueue_children hp front ?cs (queue, r')"
      using enqueue_children_jump [OF ne, of rear front hp queue] assms(2) False ne by auto
    let ?q1 = "\<lambda>x. if r' \<le> x \<and> x < r' + length ?cs then hp (?cs ! (x - r')) else queue x"
    have 2: "enqueue_children hp front ?cs (queue, r') = Inr (?q1, r' + length ?cs)"
      using fr k assms(3) by (intro enqueue_children_eq) auto
    have 3: "pad_waste e (length ?cs) (?q1, r' + length ?cs) =
       Inr (\<lambda>x. if r' + length ?cs \<le> x \<and> x < r' + length ?cs + (5 - length ?cs) then waste_node e
                 else ?q1 x, r' + length ?cs + (5 - length ?cs))"
      using k assms(3) by (intro pad_waste_eq) auto
    have 4: "(\<lambda>x. if r' + length ?cs \<le> x \<and> x < r' + length ?cs + (5 - length ?cs) then waste_node e
                 else ?q1 x)
        = (\<lambda>x. if r' \<le> x \<and> x < r' + 5 then padded_child e hp n (x - r') else queue x)"
      using k False by (auto simp: fun_eq_iff padded_child_def)
    have 5: "r' + length ?cs + (5 - length ?cs) = r' + 5" using k by arith
    show ?thesis
      using False 1 2 3 4 5 by (simp add: enqueue_def)
  qed
qed

lemma copy_phase:
  "\<not> rear_below_front e \<Longrightarrow> 5 \<le> index \<Longrightarrow> index \<le> 31 \<Longrightarrow> front + (31 - index) \<le> 60 \<Longrightarrow>
   tree_to_array e hp (queue, front, rear, index, fa) =
     Inr (queue, front + (31 - index), rear, 31,
          \<lambda>x. if index \<le> x \<and> x < 31 then queue (front + (x - index)) else fa x)"
proof (induction "31 - index" arbitrary: front index fa)
  case 0
  then have "index = 31" by simp
  then show ?case
    by (subst tree_to_array.simps) (auto simp: fun_eq_iff)
next
  case (Suc n)
  then have lt: "\<not> 30 < index" "\<not> 60 \<le> front" "\<not> index + 1 < 6" by arith+
  have ih: "tree_to_array e hp (queue, front + 1, rear, index + 1, fa(index := queue front)) =
       Inr (queue, front + 1 + (31 - (index + 1)), rear, 31,
            \<lambda>x. if index + 1 \<le> x \<and> x < 31 then queue (front + 1 + (x - (index + 1)))
                 else (fa(index := queue front)) x)"
    using Suc.prems Suc.hyps(2) lt by (intro Suc.hyps(1)) auto
  have a: "(\<lambda>x. if index + 1 \<le> x \<and> x < 31 then queue (front + 1 + (x - (index + 1)))
                 else (fa(index := queue front)) x)
        = (\<lambda>x. if index \<le> x \<and> x < 31 then queue (front + (x - index)) else fa x)"
  proof (rule ext)
    fix x
    have "index + 1 \<le> x \<Longrightarrow> front + 1 + (x - (index + 1)) = front + (x - index)"
      by arith
    then show "(if index + 1 \<le> x \<and> x < 31 then queue (front + 1 + (x - (index + 1)))
                 else (fa(index := queue front)) x)
        = (if index \<le> x \<and> x < 31 then queue (front + (x - index)) else fa x)"
      using lt by (cases "x = index") auto
  qed
  have b: "front + 1 + (31 - (index + 1)) = front + (31 - index)" using lt by arith
  show ?case
    using Suc.prems(1) lt ih a b by (subst tree_to_array.simps) (simp add: Let_def)
qed

lemma t2a_step:
  assumes "\<not> rear_below_front e" "index < 5" "front < 60"
    and "front' = front + 1" "index' = index + 1"
    and "enqueue e hp front' (queue front) (queue, rear) = Inr (q', r')"
  shows "tree_to_array e hp (queue, front, rear, index, fa) =
     tree_to_array e hp (q', front', r', index', fa(index := queue front))"
  using assms by (subst tree_to_array.simps) (simp add: Let_def)

lemma padded_child_waste [simp]: "padded_child e hp (waste_node e) i = waste_node e"
  by (simp add: padded_child_def waste_node_def)

lemma enqueue_plain:
  assumes "valid n \<noteq> 0 \<longrightarrow> length (children n) \<le> 5" "front \<le> rear" "rear + 5 \<le> 60"
  shows "enqueue e hp front n (queue, rear) =
     Inr (\<lambda>x. if rear \<le> x \<and> x < rear + 5 then padded_child e hp n (x - rear) else queue x,
          rear + 5)"
  by (rule enqueue_eq) (use assms in auto)

text \<open>
  The entries written to the slots 1 to 4 are the first four of the five the root puts
  into the queue; the fifth is written to slot 5, and its children are not put into the
  queue. So only the first four children of the root need to have at most five children
  each for the queue to be long enough.
\<close>

lemma padded_child_fanout:
  assumes "valid rn \<noteq> 0 \<longrightarrow>
      (\<forall>i<4. i < length (children rn) \<longrightarrow> valid (hp (children rn ! i)) \<noteq> 0
         \<longrightarrow> length (children (hp (children rn ! i))) \<le> 5)"
    and "r1 = (if valid rn \<noteq> 0 \<and> children rn \<noteq> [] then 1 else 0)"
    and "1 \<le> k" "k \<le> 4"
  shows "valid (padded_child e hp rn (k - r1)) \<noteq> 0
     \<longrightarrow> length (children (padded_child e hp rn (k - r1))) \<le> 5"
proof (cases "valid rn \<noteq> 0 \<and> children rn \<noteq> []")
  case False
  then show ?thesis
    by (auto simp: padded_child_def waste_node_def)
next
  case True
  then have "r1 = 1" using assms(2) by simp
  then have "k - r1 < 4" using assms(3,4) by arith
  then show ?thesis
    using assms(1) True by (auto simp: padded_child_def waste_node_def)
qed

lemma flatten_prefix:
  assumes nb: "\<not> rear_below_front e"
    and K: "valid rn \<noteq> 0 \<longrightarrow> length (children rn) \<le> 5"
    and G: "\<And>k. 1 \<le> k \<Longrightarrow> k \<le> 3 \<Longrightarrow> valid (padded_child e hp rn (k - r1)) \<noteq> 0
      \<longrightarrow> length (children (padded_child e hp rn (k - r1))) \<le> 5"
    and r1: "r1 = (if valid rn \<noteq> 0 \<and> children rn \<noteq> [] then 1 else 0)"
    and q0: "q0 = fq(0 := rn)"
    and q1: "q1 = (\<lambda>x. if r1 \<le> x \<and> x < r1 + 5 then padded_child e hp rn (x - (r1)) else q0 x)"
    and q2: "q2 = (\<lambda>x. if r1 + 5 \<le> x \<and> x < r1 + 5 + 5 then padded_child e hp (q1 1) (x - (r1 + 5)) else q1 x)"
    and q3: "q3 = (\<lambda>x. if r1 + 5 + 5 \<le> x \<and> x < r1 + 5 + 5 + 5 then padded_child e hp (q2 2) (x - (r1 + 5 + 5)) else q2 x)"
    and q4: "q4 = (\<lambda>x. if r1 + 5 + 5 + 5 \<le> x \<and> x < r1 + 5 + 5 + 5 + 5 then padded_child e hp (q3 3) (x - (r1 + 5 + 5 + 5)) else q3 x)"
  shows "tree_to_array e hp (q0, 0, 0, 0, fa0) =
      tree_to_array e hp (q4, 4, r1 + 5 + 5 + 5 + 5, 4, fa0(0 := q0 0, 1 := q1 1, 2 := q2 2, 3 := q3 3))"
    and "q4 4 = padded_child e hp rn (4 - r1)"
proof -
  have r1_le: "r1 \<le> 1" using r1 by simp
  have n1: "q1 1 = padded_child e hp rn (1 - r1)"
    using r1_le by (simp add: q1)
  have n2: "q2 2 = padded_child e hp rn (2 - r1)"
    using r1_le by (simp add: q2 q1)
  have n3: "q3 3 = padded_child e hp rn (3 - r1)"
    using r1_le by (simp add: q3 q2 q1)
  show n4: "q4 4 = padded_child e hp rn (4 - r1)"
    using r1_le by (simp add: q4 q3 q2 q1)
  have q00: "q0 0 = rn" by (simp add: q0)
  have "enqueue e hp 1 rn (q0, 0) = Inr (q1, r1 + 5)"
    unfolding q1
    by (rule enqueue_eq) (use K r1 in auto)
  then have e1: "enqueue e hp 1 (q0 0) (q0, 0) = Inr (q1, r1 + 5)"
    by (simp add: q00)
  have e2: "enqueue e hp 2 (q1 1) (q1, r1 + 5) = Inr (q2, r1 + 5 + 5)"
    unfolding q2
    by (rule enqueue_plain) (use G [of 1] r1_le n1 in auto)
  have e3: "enqueue e hp 3 (q2 2) (q2, r1 + 5 + 5) = Inr (q3, r1 + 5 + 5 + 5)"
    unfolding q3
    by (rule enqueue_plain) (use G [of 2] r1_le n2 in auto)
  have e4: "enqueue e hp 4 (q3 3) (q3, r1 + 5 + 5 + 5) = Inr (q4, r1 + 5 + 5 + 5 + 5)"
    unfolding q4
    by (rule enqueue_plain) (use G [of 3] r1_le n3 in auto)
  have s1: "tree_to_array e hp (q0, 0, 0, 0, fa0) = tree_to_array e hp (q1, 1, r1 + 5, 1, fa0(0 := q0 0))"
    by (rule t2a_step [OF nb _ _ _ _ e1]) simp_all
  have s2: "tree_to_array e hp (q1, 1, r1 + 5, 1, fa0(0 := q0 0)) = tree_to_array e hp (q2, 2, r1 + 5 + 5, 2, fa0(0 := q0 0, 1 := q1 1))"
    by (rule t2a_step [OF nb _ _ _ _ e2]) simp_all
  have s3: "tree_to_array e hp (q2, 2, r1 + 5 + 5, 2, fa0(0 := q0 0, 1 := q1 1)) = tree_to_array e hp (q3, 3, r1 + 5 + 5 + 5, 3, fa0(0 := q0 0, 1 := q1 1, 2 := q2 2))"
    by (rule t2a_step [OF nb _ _ _ _ e3]) simp_all
  have s4: "tree_to_array e hp (q3, 3, r1 + 5 + 5 + 5, 3, fa0(0 := q0 0, 1 := q1 1, 2 := q2 2)) = tree_to_array e hp (q4, 4, r1 + 5 + 5 + 5 + 5, 4, fa0(0 := q0 0, 1 := q1 1, 2 := q2 2, 3 := q3 3))"
    by (rule t2a_step [OF nb _ _ _ _ e4]) simp_all
  have "tree_to_array e hp (q0, 0, 0, 0, fa0) = tree_to_array e hp (q1, 1, r1 + 5, 1, fa0(0 := q0 0))"
    by (rule s1)
  also have "\<dots> = tree_to_array e hp (q2, 2, r1 + 5 + 5, 2, fa0(0 := q0 0, 1 := q1 1))"
    by (rule s2)
  also have "\<dots> = tree_to_array e hp (q3, 3, r1 + 5 + 5 + 5, 3, fa0(0 := q0 0, 1 := q1 1, 2 := q2 2))"
    by (rule s3)
  also have "\<dots> = tree_to_array e hp (q4, 4, r1 + 5 + 5 + 5 + 5, 4, fa0(0 := q0 0, 1 := q1 1, 2 := q2 2, 3 := q3 3))"
    by (rule s4)
  finally show "tree_to_array e hp (q0, 0, 0, 0, fa0) =
      tree_to_array e hp (q4, 4, r1 + 5 + 5 + 5 + 5, 4, fa0(0 := q0 0, 1 := q1 1, 2 := q2 2, 3 := q3 3))" .
qed

lemma flatten_run:
  assumes nb: "\<not> rear_below_front e"
    and K: "valid rn \<noteq> 0 \<longrightarrow> length (children rn) \<le> 5"
    and G: "valid rn \<noteq> 0 \<longrightarrow>
      (\<forall>i<4. i < length (children rn) \<longrightarrow> valid (hp (children rn ! i)) \<noteq> 0
         \<longrightarrow> length (children (hp (children rn ! i))) \<le> 5)"
    and r1: "r1 = (if valid rn \<noteq> 0 \<and> children rn \<noteq> [] then 1 else 0)"
    and q0: "q0 = fq(0 := rn)"
    and q1: "q1 = (\<lambda>x. if r1 \<le> x \<and> x < r1 + 5 then padded_child e hp rn (x - (r1)) else q0 x)"
    and q2: "q2 = (\<lambda>x. if r1 + 5 \<le> x \<and> x < r1 + 5 + 5 then padded_child e hp (q1 1) (x - (r1 + 5)) else q1 x)"
    and q3: "q3 = (\<lambda>x. if r1 + 5 + 5 \<le> x \<and> x < r1 + 5 + 5 + 5 then padded_child e hp (q2 2) (x - (r1 + 5 + 5)) else q2 x)"
    and q4: "q4 = (\<lambda>x. if r1 + 5 + 5 + 5 \<le> x \<and> x < r1 + 5 + 5 + 5 + 5 then padded_child e hp (q3 3) (x - (r1 + 5 + 5 + 5)) else q3 x)"
    and q5: "q5 = (\<lambda>x. if r1 + 5 + 5 + 5 + 5 \<le> x \<and> x < r1 + 5 + 5 + 5 + 5 + 5 then padded_child e hp (q4 4) (x - (r1 + 5 + 5 + 5 + 5)) else q4 x)"
  shows "tree_to_array e hp (q0, 0, 0, 0, fa0) =
     Inr (q5, 31, r1 + 25, 31,
          \<lambda>x. if 5 \<le> x \<and> x < 31 then q5 x
               else (fa0(0 := rn, 1 := q1 1, 2 := q2 2, 3 := q3 3, 4 := q4 4)) x)"
proof -
  have r1_le: "r1 \<le> 1" using r1 by simp
  have fan: "\<And>k. 1 \<le> k \<Longrightarrow> k \<le> 4 \<Longrightarrow> valid (padded_child e hp rn (k - r1)) \<noteq> 0
      \<longrightarrow> length (children (padded_child e hp rn (k - r1))) \<le> 5"
    using G r1 by (rule padded_child_fanout)
  have fan3: "\<And>k. 1 \<le> k \<Longrightarrow> k \<le> 3 \<Longrightarrow> valid (padded_child e hp rn (k - r1)) \<noteq> 0
      \<longrightarrow> length (children (padded_child e hp rn (k - r1))) \<le> 5"
    using fan by simp
  have pre: "tree_to_array e hp (q0, 0, 0, 0, fa0) =
      tree_to_array e hp (q4, 4, r1 + 5 + 5 + 5 + 5, 4, fa0(0 := q0 0, 1 := q1 1, 2 := q2 2, 3 := q3 3))"
    by (rule flatten_prefix(1) [OF nb K fan3 r1 q0 q1 q2 q3 q4])
  have pre4: "q4 4 = padded_child e hp rn (4 - r1)"
    by (rule flatten_prefix(2) [OF nb K fan3 r1 q0 q1 q2 q3 q4])
  have q00: "q0 0 = rn" by (simp add: q0)
  have e5: "enqueue e hp 5 (q4 4) (q4, r1 + 5 + 5 + 5 + 5) = Inr (q5, r1 + 5 + 5 + 5 + 5 + 5)"
    unfolding q5
    by (rule enqueue_plain) (use fan [of 4] r1_le pre4 in auto)
  have s5: "tree_to_array e hp (q4, 4, r1 + 5 + 5 + 5 + 5, 4, fa0(0 := q0 0, 1 := q1 1, 2 := q2 2, 3 := q3 3)) = tree_to_array e hp (q5, 5, r1 + 5 + 5 + 5 + 5 + 5, 5, fa0(0 := q0 0, 1 := q1 1, 2 := q2 2, 3 := q3 3, 4 := q4 4))"
    by (rule t2a_step [OF nb _ _ _ _ e5]) simp_all
  have c: "tree_to_array e hp (q5, 5, r1 + 5 + 5 + 5 + 5 + 5, 5, fa0(0 := q0 0, 1 := q1 1, 2 := q2 2, 3 := q3 3, 4 := q4 4)) =
     Inr (q5, 5 + (31 - 5), r1 + 5 + 5 + 5 + 5 + 5, 31,
          \<lambda>x. if 5 \<le> x \<and> x < 31 then q5 (5 + (x - 5)) else (fa0(0 := q0 0, 1 := q1 1, 2 := q2 2, 3 := q3 3, 4 := q4 4)) x)"
    by (rule copy_phase [OF nb]) simp_all
  note pre
  also have "tree_to_array e hp (q4, 4, r1 + 5 + 5 + 5 + 5, 4, fa0(0 := q0 0, 1 := q1 1, 2 := q2 2, 3 := q3 3)) = tree_to_array e hp (q5, 5, r1 + 5 + 5 + 5 + 5 + 5, 5, fa0(0 := q0 0, 1 := q1 1, 2 := q2 2, 3 := q3 3, 4 := q4 4))"
    by (rule s5)
  also note c
  finally show ?thesis
    using q00 by (auto simp: fun_eq_iff)
qed

text \<open>
  When the entry written to slot 4 is valid and has more children than the queue has
  cells left, the \<^verbatim>\<open>for\<close> loop of \<^verbatim>\<open>tree_to_array\<close> writes behind the queue.
\<close>

lemma enqueue_children_overflow:
  "front \<le> rear \<Longrightarrow> rear \<le> 60 \<Longrightarrow> 60 < rear + length cs \<Longrightarrow>
   enqueue_children hp front cs (queue, rear) = Inl Fault"
proof (induction cs arbitrary: queue rear)
  case Nil
  then show ?case by simp
next
  case (Cons c cs)
  show ?case
  proof (cases "60 \<le> rear")
    case True
    then show ?thesis using Cons.prems by (simp add: Let_def)
  next
    case False
    have "enqueue_children hp front cs (queue(rear := hp c), rear + 1) = Inl Fault"
      using Cons.prems False by (intro Cons.IH) auto
    then show ?thesis using Cons.prems False by (simp add: Let_def)
  qed
qed

lemma flatten_overflow:
  assumes nb: "\<not> rear_below_front e"
    and K: "valid rn \<noteq> 0" "children rn \<noteq> []" "length (children rn) \<le> 5"
    and G: "\<forall>i<3. i < length (children rn) \<longrightarrow> valid (hp (children rn ! i)) \<noteq> 0
         \<longrightarrow> length (children (hp (children rn ! i))) \<le> 5"
    and big: "3 < length (children rn)" "valid (hp (children rn ! 3)) \<noteq> 0"
      "39 < length (children (hp (children rn ! 3)))"
  shows "tree_to_array e hp (fq(0 := rn), 0, 0, 0, fa0) = Inl Fault"
proof -
  define r1 :: nat where "r1 = 1"
  define q0 where "q0 = fq(0 := rn)"
  define q1 where "q1 = (\<lambda>x. if r1 \<le> x \<and> x < r1 + 5 then padded_child e hp rn (x - (r1)) else q0 x)"
  define q2 where "q2 = (\<lambda>x. if r1 + 5 \<le> x \<and> x < r1 + 5 + 5 then padded_child e hp (q1 1) (x - (r1 + 5)) else q1 x)"
  define q3 where "q3 = (\<lambda>x. if r1 + 5 + 5 \<le> x \<and> x < r1 + 5 + 5 + 5 then padded_child e hp (q2 2) (x - (r1 + 5 + 5)) else q2 x)"
  define q4 where "q4 = (\<lambda>x. if r1 + 5 + 5 + 5 \<le> x \<and> x < r1 + 5 + 5 + 5 + 5 then padded_child e hp (q3 3) (x - (r1 + 5 + 5 + 5)) else q3 x)"
  have r1: "r1 = (if valid rn \<noteq> 0 \<and> children rn \<noteq> [] then 1 else 0)"
    using K by (simp add: r1_def)
  have K': "valid rn \<noteq> 0 \<longrightarrow> length (children rn) \<le> 5" using K by simp
  have fan3: "\<And>k. 1 \<le> k \<Longrightarrow> k \<le> 3 \<Longrightarrow> valid (padded_child e hp rn (k - r1)) \<noteq> 0
      \<longrightarrow> length (children (padded_child e hp rn (k - r1))) \<le> 5"
  proof -
    fix k :: nat assume "1 \<le> k" "k \<le> 3"
    then have "k - r1 < 3" by (simp add: r1_def)
    then show "valid (padded_child e hp rn (k - r1)) \<noteq> 0
      \<longrightarrow> length (children (padded_child e hp rn (k - r1))) \<le> 5"
      using G by (auto simp: padded_child_def waste_node_def)
  qed
  have pre: "tree_to_array e hp (q0, 0, 0, 0, fa0) =
      tree_to_array e hp (q4, 4, r1 + 5 + 5 + 5 + 5, 4, fa0(0 := q0 0, 1 := q1 1, 2 := q2 2, 3 := q3 3))"
    by (rule flatten_prefix(1) [OF nb K' fan3 r1 q0_def q1_def q2_def q3_def q4_def])
  have pre4: "q4 4 = padded_child e hp rn (4 - r1)"
    by (rule flatten_prefix(2) [OF nb K' fan3 r1 q0_def q1_def q2_def q3_def q4_def])
  have n4: "q4 4 = hp (children rn ! 3)"
    using pre4 K big(1) by (simp add: padded_child_def r1_def)
  have "enqueue_children hp 5 (children (q4 4)) (q4, r1 + 5 + 5 + 5 + 5) = Inl Fault"
    using big(3) n4 by (intro enqueue_children_overflow) (simp_all add: r1_def)
  then have "enqueue e hp 5 (q4 4) (q4, r1 + 5 + 5 + 5 + 5) = Inl Fault"
    using big(2) n4 by (simp add: enqueue_def)
  then have "tree_to_array e hp (q4, 4, r1 + 5 + 5 + 5 + 5, 4, fa0(0 := q0 0, 1 := q1 1, 2 := q2 2, 3 := q3 3))
      = Inl Fault"
    using nb by (subst tree_to_array.simps) (simp add: Let_def)
  with pre show ?thesis by (simp add: q0_def)
qed

lemma flatten_cells:
  assumes r1: "r1 \<le> 1"
    and q1: "q1 = (\<lambda>x. if r1 \<le> x \<and> x < r1 + 5 then padded_child e hp rn (x - (r1)) else q0 x)"
    and q2: "q2 = (\<lambda>x. if r1 + 5 \<le> x \<and> x < r1 + 5 + 5 then padded_child e hp (q1 1) (x - (r1 + 5)) else q1 x)"
    and q3: "q3 = (\<lambda>x. if r1 + 5 + 5 \<le> x \<and> x < r1 + 5 + 5 + 5 then padded_child e hp (q2 2) (x - (r1 + 5 + 5)) else q2 x)"
    and q4: "q4 = (\<lambda>x. if r1 + 5 + 5 + 5 \<le> x \<and> x < r1 + 5 + 5 + 5 + 5 then padded_child e hp (q3 3) (x - (r1 + 5 + 5 + 5)) else q3 x)"
    and q5: "q5 = (\<lambda>x. if r1 + 5 + 5 + 5 + 5 \<le> x \<and> x < r1 + 5 + 5 + 5 + 5 + 5 then padded_child e hp (q4 4) (x - (r1 + 5 + 5 + 5 + 5)) else q4 x)"
  shows "\<forall>i<5. q5 (r1 + i) = padded_child e hp rn i"
    and "\<forall>i<5. q5 (r1 + 5 + i) = padded_child e hp (q1 1) i"
    and "\<forall>i<5. q5 (r1 + 10 + i) = padded_child e hp (q2 2) i"
    and "\<forall>i<5. q5 (r1 + 15 + i) = padded_child e hp (q3 3) i"
    and "\<forall>i<5. q5 (r1 + 20 + i) = padded_child e hp (q4 4) i"
    and "\<forall>x. r1 + 25 \<le> x \<longrightarrow> q5 x = q0 x"
    and "1 \<le> r1 \<longrightarrow> q5 0 = q0 0"
    and "q1 1 = q5 1" and "q2 2 = q5 2" and "q3 3 = q5 3" and "q4 4 = q5 4"
  using r1 by (simp_all add: q5 q4 q3 q2 q1)

lemma fanout_ok_fits:
  assumes "fanout_ok s"
  shows "valid (heap s (root s)) \<noteq> 0 \<longrightarrow> length (children (heap s (root s))) \<le> 5"
    and "valid (heap s (root s)) \<noteq> 0 \<longrightarrow>
      (\<forall>i<4. i < length (children (heap s (root s)))
         \<longrightarrow> valid (heap s (children (heap s (root s)) ! i)) \<noteq> 0
         \<longrightarrow> length (children (heap s (children (heap s (root s)) ! i))) \<le> 5)"
  using assms by (auto simp: fanout_ok_def list_all_iff)

lemma save_contents_run:
  assumes nb: "\<not> rear_below_front e"
    and K: "valid (heap s (root s)) \<noteq> 0 \<longrightarrow> length (children (heap s (root s))) \<le> 5"
    and G: "valid (heap s (root s)) \<noteq> 0 \<longrightarrow>
      (\<forall>i<4. i < length (children (heap s (root s)))
         \<longrightarrow> valid (heap s (children (heap s (root s)) ! i)) \<noteq> 0
         \<longrightarrow> length (children (heap s (children (heap s (root s)) ! i))) \<le> 5)"
    and rn: "rn = heap s (root s)"
    and r1: "r1 = (if valid rn \<noteq> 0 \<and> children rn \<noteq> [] then 1 else 0)"
  shows "\<exists>fa. save_contents e s = Inr (s\<lparr>file_array := fa\<rparr>)
     \<and> fa 0 = rn
     \<and> (\<forall>i<5. 1 \<le> r1 + i \<longrightarrow> fa (r1 + i) = padded_child e (heap s) rn i)
     \<and> (\<forall>i<5. fa (r1 + 5 + i) = padded_child e (heap s) (fa 1) i)
     \<and> (\<forall>i<5. fa (r1 + 10 + i) = padded_child e (heap s) (fa 2) i)
     \<and> (\<forall>i<5. fa (r1 + 15 + i) = padded_child e (heap s) (fa 3) i)
     \<and> (\<forall>i<5. fa (r1 + 20 + i) = padded_child e (heap s) (fa 4) i)
     \<and> (\<forall>x. r1 + 25 \<le> x \<and> x < 31 \<longrightarrow> fa x = fresh_queue e x)
     \<and> (\<forall>x. 31 \<le> x \<longrightarrow> fa x = file_array s x)"
proof -
  let ?hp = "heap s"
  have K: "valid rn \<noteq> 0 \<longrightarrow> length (children rn) \<le> 5"
    using K rn by simp
  have G: "valid rn \<noteq> 0 \<longrightarrow>
      (\<forall>i<4. i < length (children rn) \<longrightarrow> valid (?hp (children rn ! i)) \<noteq> 0
         \<longrightarrow> length (children (?hp (children rn ! i))) \<le> 5)"
    using G rn by simp
  define q0 where "q0 = (fresh_queue e)(0 := rn)"
  define q1 where "q1 = (\<lambda>x. if r1 \<le> x \<and> x < r1 + 5 then padded_child e ?hp rn (x - (r1)) else q0 x)"
  define q2 where "q2 = (\<lambda>x. if r1 + 5 \<le> x \<and> x < r1 + 5 + 5 then padded_child e ?hp (q1 1) (x - (r1 + 5)) else q1 x)"
  define q3 where "q3 = (\<lambda>x. if r1 + 5 + 5 \<le> x \<and> x < r1 + 5 + 5 + 5 then padded_child e ?hp (q2 2) (x - (r1 + 5 + 5)) else q2 x)"
  define q4 where "q4 = (\<lambda>x. if r1 + 5 + 5 + 5 \<le> x \<and> x < r1 + 5 + 5 + 5 + 5 then padded_child e ?hp (q3 3) (x - (r1 + 5 + 5 + 5)) else q3 x)"
  define q5 where "q5 = (\<lambda>x. if r1 + 5 + 5 + 5 + 5 \<le> x \<and> x < r1 + 5 + 5 + 5 + 5 + 5 then padded_child e ?hp (q4 4) (x - (r1 + 5 + 5 + 5 + 5)) else q4 x)"
  define fa where "fa = (\<lambda>x. if 5 \<le> x \<and> x < 31 then q5 x
               else ((file_array s)(0 := rn, 1 := q1 1, 2 := q2 2, 3 := q3 3, 4 := q4 4)) x)"
  have run: "tree_to_array e ?hp (q0, 0, 0, 0, file_array s) = Inr (q5, 31, r1 + 25, 31, fa)"
    unfolding fa_def
    by (rule flatten_run [OF nb K G r1 q0_def q1_def q2_def q3_def q4_def q5_def])
  have r1_le: "r1 \<le> 1" using r1 by simp
  note cells = flatten_cells [OF r1_le q1_def q2_def q3_def q4_def q5_def]
  have save: "save_contents e s = Inr (s\<lparr>file_array := fa\<rparr>)"
    using run by (simp add: save_contents_def rn q0_def)
  have f0: "fa 0 = rn" by (simp add: fa_def)
  have low: "\<And>x. 1 \<le> x \<Longrightarrow> x < 31 \<Longrightarrow> fa x = q5 x"
  proof -
    fix x :: nat
    assume "1 \<le> x" "x < 31"
    then consider "x = 1" | "x = 2" | "x = 3" | "x = 4" | "5 \<le> x" by arith
    then show "fa x = q5 x"
      using \<open>x < 31\<close> cells(8-11) by cases (simp_all add: fa_def)
  qed
  have c1: "\<forall>i<5. 1 \<le> r1 + i \<longrightarrow> fa (r1 + i) = padded_child e ?hp rn i"
    using cells(1) low r1_le by simp
  have c2: "\<forall>i<5. fa (r1 + 5 + i) = padded_child e ?hp (fa 1) i"
    using cells(2) cells(8) low r1_le by simp
  have c3: "\<forall>i<5. fa (r1 + 10 + i) = padded_child e ?hp (fa 2) i"
    using cells(3) cells(9) low r1_le by simp
  have c4: "\<forall>i<5. fa (r1 + 15 + i) = padded_child e ?hp (fa 3) i"
    using cells(4) cells(10) low r1_le by simp
  have c5: "\<forall>i<5. fa (r1 + 20 + i) = padded_child e ?hp (fa 4) i"
    using cells(5) cells(11) low r1_le by simp
  have c6: "\<forall>x. r1 + 25 \<le> x \<and> x < 31 \<longrightarrow> fa x = fresh_queue e x"
    using cells(6) low by (simp add: q0_def)
  have c7: "\<forall>x. 31 \<le> x \<longrightarrow> fa x = file_array s x"
    by (simp add: fa_def)
  from save f0 c1 c2 c3 c4 c5 c6 c7 show ?thesis by blast
qed

section \<open>Persisting depends on the shape of the tree only\<close>

lemma enqueue_children_shape:
  assumes "\<forall>x. shape (hp x) = shape (hp' x)"
  shows "\<forall>x. shape (q x) = shape (q' x) \<Longrightarrow>
    qrel (enqueue_children hp front cs (q, r)) (enqueue_children hp' front cs (q', r))"
proof (induction cs arbitrary: q q' r)
  case Nil
  then show ?case by (simp add: qrel_def)
next
  case (Cons c cs)
  define r0 where "r0 = (if r < front then front else r)"
  have unfold: "\<And>h qq. enqueue_children h front (c # cs) (qq, r) =
      (if 60 \<le> r0 then Inl Fault else enqueue_children h front cs (qq(r0 := h c), r0 + 1))"
    by (simp add: r0_def Let_def)
  show ?case
  proof (cases "60 \<le> r0")
    case True
    then show ?thesis by (simp only: unfold) (simp add: qrel_def)
  next
    case False
    have "\<forall>x. shape ((q(r0 := hp c)) x) = shape ((q'(r0 := hp' c)) x)"
      using Cons.prems assms by simp
    from Cons.IH [OF this, of "r0 + 1"] False show ?thesis
      by (simp only: unfold if_False)
  qed
qed

lemma pad_waste_shape:
  "\<forall>x. shape (q x) = shape (q' x) \<Longrightarrow> qrel (pad_waste e i (q, r)) (pad_waste e i (q', r))"
proof (induction "5 - i" arbitrary: i q q' r)
  case 0
  then show ?case
    by (subst (1 2) pad_waste.simps) (simp add: qrel_def)
next
  case (Suc n)
  then have i: "i < 5" by arith
  show ?case
  proof (cases "60 \<le> r")
    case True
    then show ?thesis
      using i by (subst (1 2) pad_waste.simps) (simp add: qrel_def)
  next
    case False
    have "\<forall>x. shape ((q(r := waste_node e)) x) = shape ((q'(r := waste_node e)) x)"
      using Suc.prems by simp
    moreover have "n = 5 - (i + 1)" using Suc.hyps(2) by arith
    ultimately have "qrel (pad_waste e (i + 1) (q(r := waste_node e), r + 1))
        (pad_waste e (i + 1) (q'(r := waste_node e), r + 1))"
      by (rule Suc.hyps(1) [rotated])
    then show ?thesis
      using i False by (subst (1 2) pad_waste.simps) simp
  qed
qed

lemma enqueue_shape:
  assumes "\<forall>x. shape (hp x) = shape (hp' x)" "\<forall>x. shape (q x) = shape (q' x)"
    "shape n = shape n'"
  shows "qrel (enqueue e hp front n (q, r)) (enqueue e hp' front n' (q', r))"
proof (cases "valid n = 0")
  case True
  then have "valid n' = 0" using assms(3) by (simp add: shape_def)
  with True show ?thesis
    using pad_waste_shape [OF assms(2)] by (simp add: enqueue_def)
next
  case False
  then have v: "valid n' \<noteq> 0" and c: "children n' = children n"
    using assms(3) by (simp_all add: shape_def)
  have 1: "qrel (enqueue_children hp front (children n) (q, r))
      (enqueue_children hp' front (children n) (q', r))"
    using assms(1,2) by (rule enqueue_children_shape)
  show ?thesis
  proof (cases "enqueue_children hp front (children n) (q, r)")
    case (Inl a)
    with 1 show ?thesis
      using False v c by (auto simp: enqueue_def qrel_def isl_def)
  next
    case (Inr qr)
    obtain q1 r1 where qr: "qr = (q1, r1)" by (cases qr)
    from 1 Inr qr obtain q1' where
      2: "enqueue_children hp' front (children n) (q', r) = Inr (q1', r1)"
      and 3: "\<forall>x. shape (q1 x) = shape (q1' x)"
      by (auto simp: qrel_def split: sum.splits)
    show ?thesis
      using False v c Inr qr 2 pad_waste_shape [OF 3] by (simp add: enqueue_def)
  qed
qed

lemma tree_to_array_shape:
  assumes H: "\<forall>x. shape (hp x) = shape (hp' x)"
  shows "\<forall>x. shape (q x) = shape (q' x) \<Longrightarrow>
    isl (tree_to_array e hp (q, front, rear, index, fa))
    = isl (tree_to_array e hp' (q', front, rear, index, fa'))"
proof (induction "31 - index" arbitrary: q q' front rear index fa fa')
  case 0
  then have "30 < index" by arith
  then show ?case
    by (subst (1 2) tree_to_array.simps) simp
next
  case (Suc n)
  then have i: "\<not> 30 < index" by arith
  have n: "n = 31 - (index + 1)" using Suc.hyps(2) by arith
  show ?case
  proof (cases "rear_below_front e \<or> 60 \<le> front")
    case True
    then show ?thesis
      by (subst (1 2) tree_to_array.simps) auto
  next
    case False
    show ?thesis
    proof (cases "index + 1 < 6")
      case deep: False
      have "isl (tree_to_array e hp (q, front + 1, rear, index + 1, fa(index := q front)))
        = isl (tree_to_array e hp' (q', front + 1, rear, index + 1, fa'(index := q' front)))"
        using n Suc.prems by (rule Suc.hyps(1))
      then show ?thesis
        using False i deep by (subst (1 2) tree_to_array.simps) (simp add: Let_def)
    next
      case True
      have s: "shape (q front) = shape (q' front)" using Suc.prems by simp
      have rel: "qrel (enqueue e hp (front + 1) (q front) (q, rear))
          (enqueue e hp' (front + 1) (q' front) (q', rear))"
        using H Suc.prems s by (rule enqueue_shape)
      show ?thesis
      proof (cases "enqueue e hp (front + 1) (q front) (q, rear)")
        case (Inl a)
        with rel have "isl (enqueue e hp' (front + 1) (q' front) (q', rear))"
          by (simp add: qrel_def)
        then obtain b where "enqueue e hp' (front + 1) (q' front) (q', rear) = Inl b"
          by (auto simp: isl_def)
        with Inl show ?thesis
          using False i True by (subst (1 2) tree_to_array.simps) (simp add: Let_def)
      next
        case (Inr qr)
        obtain q1 r1 where qr: "qr = (q1, r1)" by (cases qr)
        from rel Inr qr obtain q1' where
          2: "enqueue e hp' (front + 1) (q' front) (q', rear) = Inr (q1', r1)"
          and 3: "\<forall>x. shape (q1 x) = shape (q1' x)"
          by (auto simp: qrel_def split: sum.splits)
        have "isl (tree_to_array e hp (q1, front + 1, r1, index + 1, fa(index := q front)))
          = isl (tree_to_array e hp' (q1', front + 1, r1, index + 1, fa'(index := q' front)))"
          using n 3 by (rule Suc.hyps(1))
        then show ?thesis
          using False i True Inr qr 2 by (subst (1 2) tree_to_array.simps) (simp add: Let_def)
      qed
    qed
  qed
qed

lemma persistable_shape:
  assumes "\<forall>x. shape (heap s x) = shape (heap s' x)" "root s' = root s"
  shows "persistable e s' = persistable e s"
proof -
  have "isl (tree_to_array e (heap s) ((fresh_queue e)(0 := heap s (root s)), 0, 0, 0, file_array s))
      = isl (tree_to_array e (heap s') ((fresh_queue e)(0 := heap s' (root s')), 0, 0, 0, file_array s'))"
    using assms by (intro tree_to_array_shape) auto
  then show ?thesis
    by (auto simp: persistable_def save_contents_def isl_def split: sum.splits)
qed

section \<open>C strings in the arena: lemmas\<close>

lemma cstr_atI:
  assumes "\<And>i. i < length str \<Longrightarrow> m (a + i) = str ! i" "m (a + length str) = NUL" "NUL \<notin> set str"
  shows "cstr_at m a str"
  using assms by (auto simp: cstr_at_def list_all_iff)

lemma cstr_atD:
  assumes "cstr_at m a str"
  shows "\<And>i. i < length str \<Longrightarrow> m (a + i) = str ! i" "m (a + length str) = NUL" "NUL \<notin> set str"
  using assms by (auto simp: cstr_at_def list_all_iff)

lemma scan_nul_eq:
  "(\<And>i. i < n \<Longrightarrow> m (a + i) \<noteq> NUL) \<Longrightarrow> m (a + n) = NUL \<Longrightarrow> n < k \<Longrightarrow> scan_nul m a k = Some n"
proof (induction k arbitrary: a n)
  case 0
  then show ?case by simp
next
  case (Suc k)
  show ?case
  proof (cases n)
    case 0
    with Suc.prems show ?thesis by simp
  next
    case (Suc n')
    have ne: "m a \<noteq> NUL" using Suc.prems(1) [of 0] Suc by simp
    have "scan_nul m (Suc a) k = Some n'"
    proof (rule Suc.IH)
      show "\<And>i. i < n' \<Longrightarrow> m (Suc a + i) \<noteq> NUL"
        using Suc.prems(1) Suc by (metis Suc_less_eq add_Suc_shift)
      show "m (Suc a + n') = NUL" using Suc.prems(2) Suc by simp
      show "n' < k" using Suc.prems(3) Suc by simp
    qed
    with ne Suc show ?thesis by simp
  qed
qed

lemma c_strlen_cstr:
  assumes "cstr_at m a str" "a + length str < arena_size"
  shows "c_strlen m a = Some (length str)"
proof -
  have "\<And>i. i < length str \<Longrightarrow> m (a + i) \<noteq> NUL"
    using cstr_atD(1,3) [OF assms(1)] by (metis nth_mem)
  then show ?thesis
    unfolding c_strlen_def
    using cstr_atD(2) [OF assms(1)] assms(2) by (intro scan_nul_eq) auto
qed

lemma c_strn_cstr:
  "cstr_at m a str \<Longrightarrow> c_strn m a n = take n str"
proof (induction n arbitrary: a str)
  case 0
  then show ?case by simp
next
  case (Suc n)
  show ?case
  proof (cases str)
    case Nil
    with Suc.prems show ?thesis by (simp add: cstr_at_def)
  next
    case (Cons c cs)
    have h: "m a = c" "c \<noteq> NUL"
      using cstr_atD(1) [OF Suc.prems, of 0] cstr_atD(3) [OF Suc.prems] Cons by auto
    have "cstr_at m (Suc a) cs"
    proof (rule cstr_atI)
      show "\<And>i. i < length cs \<Longrightarrow> m (Suc a + i) = cs ! i"
        using cstr_atD(1) [OF Suc.prems, of "Suc _"] Cons by simp
      show "m (Suc a + length cs) = NUL"
        using cstr_atD(2) [OF Suc.prems] Cons by simp
      show "NUL \<notin> set cs"
        using cstr_atD(3) [OF Suc.prems] Cons by simp
    qed
    then have "c_strn m (Suc a) n = take n cs" by (rule Suc.IH)
    with h Cons show ?thesis by simp
  qed
qed

lemma strcpy_arena_cstr:
  assumes "NUL \<notin> set str" "a + length str < arena_size"
  shows "\<exists>m'. strcpy_arena m a str = Inr m' \<and> cstr_at m' a str
     \<and> (\<forall>x. x < a \<or> a + length str < x \<longrightarrow> m' x = m x)"
  using assms by (auto simp: strcpy_arena_def intro!: cstr_atI)

lemma cstr_at_frame:
  assumes "cstr_at m a str" "\<forall>x. a \<le> x \<and> x \<le> a + length str \<longrightarrow> m' x = m x"
  shows "cstr_at m' a str"
  using cstr_atD [OF assms(1)] assms(2) by (intro cstr_atI) auto

lemma strcat_arena_cstr:
  assumes "cstr_at m a s1" "NUL \<notin> set s2" "a + length s1 + length s2 < arena_size"
  shows "\<exists>m'. strcat_arena m a s2 = Inr m' \<and> cstr_at m' a (s1 @ s2)
     \<and> (\<forall>x. x < a + length s1 \<or> a + length s1 + length s2 < x \<longrightarrow> m' x = m x)"
proof -
  have len: "c_strlen m a = Some (length s1)"
    using assms(1,3) by (intro c_strlen_cstr) auto
  obtain m' where m': "strcpy_arena m (a + length s1) s2 = Inr m'"
    "cstr_at m' (a + length s1) s2"
    "\<forall>x. x < a + length s1 \<or> a + length s1 + length s2 < x \<longrightarrow> m' x = m x"
    using strcpy_arena_cstr [OF assms(2), of "a + length s1" m] assms(3) by auto
  have "cstr_at m' a (s1 @ s2)"
  proof (rule cstr_atI)
    fix i assume i: "i < length (s1 @ s2)"
    show "m' (a + i) = (s1 @ s2) ! i"
    proof (cases "i < length s1")
      case True
      then show ?thesis
        using m'(3) cstr_atD(1) [OF assms(1), of i] by (simp add: nth_append)
    next
      case False
      then have "m' (a + length s1 + (i - length s1)) = s2 ! (i - length s1)"
        using cstr_atD(1) [OF m'(2), of "i - length s1"] i by simp
      with False show ?thesis by (simp add: nth_append)
    qed
  next
    show "m' (a + length (s1 @ s2)) = NUL"
      using cstr_atD(2) [OF m'(2)] by (simp add: add.assoc)
    show "NUL \<notin> set (s1 @ s2)"
      using cstr_atD(3) [OF assms(1)] assms(2) by simp
  qed
  with len m' show ?thesis by (auto simp: strcat_arena_def)
qed

lemma cstr_at_suffix:
  assumes "cstr_at m a (s1 @ s2)"
  shows "cstr_at m (a + length s1) s2"
proof (rule cstr_atI)
  fix i assume "i < length s2"
  then show "m (a + length s1 + i) = s2 ! i"
    using cstr_atD(1) [OF assms, of "length s1 + i"] by (simp add: nth_append add.assoc)
next
  show "m (a + length s1 + length s2) = NUL"
    using cstr_atD(2) [OF assms] by (simp add: add.assoc)
  show "NUL \<notin> set s2"
    using cstr_atD(3) [OF assms] by simp
qed

section \<open>Facts about the concrete states\<close>

lemmas demo_defs = demo_fs_def demo_heap_def entry_def zero_filetype_def zero_env_def
  boot_superblock_def initialize_superblock_def zero_superblock_def

lemma demo_resolve:
  "filetype_from_path demo_fs ''/'' = Inr (Some 100)"
  "filetype_from_path demo_fs ''/a'' = Inr (Some 101)"
  "filetype_from_path demo_fs ''/b'' = Inr (Some 102)"
  "filetype_from_path demo_fs ''/a/c'' = Inr (Some 103)"
  "filetype_from_path demo_fs ''/b/e'' = Inr (Some 105)"
  "filetype_from_path demo_fs ''/x'' = Inr None"
  "filetype_from_path demo_fs ''/x/y'' = Inr None"
  by (simp_all add: filetype_from_path_def walk.simps demo_defs)

lemma demo_fanout: "fanout_ok demo_fs"
  by (simp add: fanout_ok_def demo_defs)

lemma persistable_fanout:
  assumes "fanout_ok s"
  shows "persistable e s"
proof (cases "rear_below_front e")
  case True
  then show ?thesis
    by (simp add: persistable_def save_contents_def tree_to_array.simps)
next
  case False
  from save_contents_run [OF False fanout_ok_fits [OF assms] refl refl] show ?thesis
    by (auto simp: persistable_def)
qed

lemma save_contents_frame:
  "save_contents e s = Inr s' \<Longrightarrow> s' = s\<lparr>file_array := file_array s'\<rparr>"
  by (auto simp: save_contents_def split: sum.splits)

lemma persistable_save:
  "persistable e s \<Longrightarrow> \<exists>fa. save_contents e s = Inr (s\<lparr>file_array := fa\<rparr>)"
  by (auto simp: persistable_def save_contents_def split: sum.splits)

lemma demo_paths:
  "after_rindex ''/x/y'' = ''y''" "before_rindex ''/x/y'' = ''/x''"
  "after_rindex ''/x'' = ''x''" "before_rindex ''/x'' = []"
  "after_rindex ''/a'' = ''a''" "before_rindex ''/a'' = []"
  "after_rindex ''/b/e'' = ''e''" "before_rindex ''/b/e'' = ''/b''"
  "after_rindex ''/b/z'' = ''z''"
  by (simp_all add: after_rindex_def before_rindex_def)

lemma demo_children:
  "children (heap demo_fs 100) = [101, 102]"
  "children (heap demo_fs 101) = [103]"
  "children (heap demo_fs 102) = [104, 105, 106]"
  "children (heap demo_fs 103) = []"
  "children (heap demo_fs 105) = []"
  by (simp_all add: demo_defs)

lemma demo_find:
  "find_child (heap demo_fs) [101, 102] ''x'' = None"
  "find_child (heap demo_fs) [101, 102] ''a'' = Some 101"
  "find_child (heap demo_fs) [104, 105, 106] ''e'' = Some 105"
  by (simp_all add: demo_defs)

text \<open>
  \<open>boot_superblock\<close> is the superblock the else branch of \<^verbatim>\<open>main\<close> leaves:
  \<^verbatim>\<open>initialize_superblock\<close>, then \<^verbatim>\<open>initialize_root_directory\<close>.
\<close>

lemma boot_reached:
  "\<exists>s'. initialize_root_directory e a (zero_fs\<lparr>spblock := initialize_superblock (spblock zero_fs)\<rparr>)
       = Inr s'
     \<and> spblock s' = boot_superblock \<and> root s' = a \<and> children (heap s' a) = []
     \<and> name (heap s' a) = ''/''"
proof -
  let ?s = "zero_fs\<lparr>spblock := initialize_superblock (spblock zero_fs)\<rparr>"
  let ?s1 = "?s\<lparr>spblock := (spblock ?s)\<lparr>inode_bitmap := (inode_bitmap (spblock ?s))(1 := CHR 0x01)\<rparr>,
          root := a,
          heap := (heap ?s)(a := (heap ?s a)\<lparr>valid := 1, test := ''test'', path := ''/'', name := ''/'',
            children := [], spare_cells := 0, num_links := 2, parent := None,
            ftype := ''directory'',
            permissions := S_IFDIR + 511, user_id := uid e, group_id := gid e,
            a_time := now e, m_time := now e, c_time := now e, b_time := now e,
            size_bytes := 0, number := 2, blocks := 0\<rparr>)\<rparr>"
  have "fanout_ok ?s1" by (simp add: fanout_ok_def)
  then have "persistable e ?s1" by (rule persistable_fanout)
  then obtain fa where "save_contents e ?s1 = Inr (?s1\<lparr>file_array := fa\<rparr>)"
    using persistable_save by blast
  then show ?thesis
    by (simp add: initialize_root_directory_def boot_superblock_def zero_fs_def)
qed

section \<open>The claims about the tree handlers\<close>

subsection \<open>C10: \<^verbatim>\<open>myopen\<close>\<close>

lemma walk_errors: "walk hp c pn = Inl err \<Longrightarrow> err = NoValue \<or> err = Fault"
proof (induction hp c pn rule: walk.induct)
  case (1 hp curr_node pn)
  from "1.prems" show ?case
    using "1.IH" by (subst (asm) walk.simps) (auto split: option.splits if_splits)
qed

lemma myopen_never_ENOENT: "myopen p s \<noteq> Inl ENOENT"
  using walk_errors [of "heap s" "root s" _ ENOENT]
  by (auto simp: myopen_def filetype_from_path_def Let_def split: sum.splits if_splits)

lemma myopen_long_path: "sizeof_ptr < length p \<Longrightarrow> myopen p s = Inl Fault"
  by (simp add: myopen_def)

text \<open>
  C10, as amended. For every path of at most \<^verbatim>\<open>sizeof(path)\<close> = 8 characters that begins
  with the separator \<^verbatim>\<open>/\<close>, whether or not it resolves to an entry, \<^verbatim>\<open>myopen\<close> returns 0
  and leaves the state as it is: the pointer \<^verbatim>\<open>filetype_from_path\<close> returns is dropped.
  (For no path at all does it return \<^verbatim>\<open>-ENOENT\<close>: lemma \<open>myopen_never_ENOENT\<close>.)
  Nothing is stated about longer paths: their copy does not fit into the
  \<^verbatim>\<open>sizeof(path) + 1\<close> bytes \<^verbatim>\<open>myopen\<close> allocates for it (lemma \<open>myopen_long_path\<close>).
\<close>

theorem C10_myopen_returns_0:
  assumes "p \<noteq> []" "hd p = CHR ''/''" "length p \<le> sizeof_ptr"
  shows "myopen p s = Inr (0, s)"
  using assms by (rule myopen_abs)

text \<open>
  The path \<^verbatim>\<open>/x/y\<close> resolves to no entry of the demo tree, and \<^verbatim>\<open>myopen\<close> returns 0.
\<close>

theorem C10_myopen_returns_0_witness:
  "filetype_from_path demo_fs ''/x/y'' = Inr None \<and> myopen ''/x/y'' demo_fs = Inr (0, demo_fs)"
  using C10_myopen_returns_0 [of "''/x/y''" demo_fs] demo_resolve(7)
  by (simp add: sizeof_ptr_def)

text \<open>
  C10 as stated (for every path) fails on a path without the leading separator:
  \<^verbatim>\<open>filetype_from_path\<close> prints \<^verbatim>\<open>INCORRECT PATH\<close> and calls \<^verbatim>\<open>exit(1)\<close>, so
  \<^verbatim>\<open>myopen\<close> does not return.
\<close>

theorem C10_myopen_relative_path_exits:
  "myopen ''x'' demo_fs = Inl Exited \<and> \<not> (\<forall>p. \<exists>s'. myopen p demo_fs = Inr (0, s'))"
proof -
  have 1: "myopen ''x'' demo_fs = Inl Exited"
    by (simp add: myopen_def filetype_from_path_def sizeof_ptr_def)
  then have "\<not> (\<exists>s'. myopen ''x'' demo_fs = Inr (0, s'))" by simp
  with 1 show ?thesis by blast
qed

subsection \<open>C7: \<^verbatim>\<open>filetype_from_path\<close>\<close>

text \<open>
  C7 (every path that begins with the separator is resolved segment by segment, and
  a segment without a match gives not-found). On \<^verbatim>\<open>//\<close> and on \<^verbatim>\<open>/a//\<close> the loop of
  \<^verbatim>\<open>filetype_from_path\<close> ends with nothing left of the path, and the function ends
  without a \<^verbatim>\<open>return\<close> statement: what the caller gets is no value the function chose.
  With one trailing separator (\<^verbatim>\<open>/a/\<close>) the entry is found.
\<close>

theorem C7_resolve_without_return:
  "filetype_from_path demo_fs ''//'' = Inl NoValue
   \<and> filetype_from_path demo_fs ''/a//'' = Inl NoValue
   \<and> filetype_from_path demo_fs ''/a/'' = Inr (Some 101)"
  by (simp add: filetype_from_path_def walk.simps demo_defs)

text \<open>
  On every other path that begins with the separator and whose segments fit into
  \<^verbatim>\<open>curr_folder\<close> the function does what the specification says: when what is left of
  the path (after the leading separator and one trailing separator have been cut) is
  not empty and does not end in a separator, the result is the segment-by-segment
  lookup \<open>resolve_from\<close>, with the first match among the children
  (\<open>find_child_first\<close>) and NULL when a segment has none.
\<close>

lemma find_child_first:
  "find_child hp cs nm = List.find (\<lambda>c. name (hp c) = nm) cs"
  by (induction cs) simp_all

lemma rest_after_slash:
  assumes "pn \<noteq> []" "last pn \<noteq> CHR ''/''" "CHR ''/'' \<in> set pn"
  shows "tl (dropWhile (\<lambda>c. c \<noteq> CHR ''/'') pn) \<noteq> []"
    and "last (tl (dropWhile (\<lambda>c. c \<noteq> CHR ''/'') pn)) \<noteq> CHR ''/''"
    and "length (tl (dropWhile (\<lambda>c. c \<noteq> CHR ''/'') pn)) < length pn"
proof -
  let ?d = "dropWhile (\<lambda>c. c \<noteq> CHR ''/'') pn"
  have ne: "?d \<noteq> []" using assms(3) by auto
  then have hd: "hd ?d = CHR ''/''" using hd_dropWhile [of "\<lambda>c. c \<noteq> CHR ''/''" pn] by auto
  have l: "last ?d = last pn" using ne by (metis last_appendR takeWhile_dropWhile_id)
  show 1: "tl ?d \<noteq> []"
  proof
    assume "tl ?d = []"
    with ne hd have "?d = [CHR ''/'']" by (cases ?d) auto
    with l assms(2) show False by simp
  qed
  show "last (tl ?d) \<noteq> CHR ''/''"
    using 1 l assms(2) ne by (metis last_tl)
  have "length (tl ?d) < length ?d" using ne by (cases ?d) auto
  also have "\<dots> \<le> length pn" by (rule length_dropWhile_le)
  finally show "length (tl ?d) < length pn" .
qed

lemma walk_segments:
  "pn \<noteq> [] \<Longrightarrow> last pn \<noteq> CHR ''/'' \<Longrightarrow> list_all (\<lambda>seg. length seg < 100) (segments pn) \<Longrightarrow>
   walk hp c pn = Inr (resolve_from hp c (segments pn))"
proof (induction "length pn" arbitrary: c pn rule: less_induct)
  case less
  show ?case
  proof (cases "CHR ''/'' \<in> set pn")
    case False
    then have "segments pn = [pn]" by (subst segments.simps) simp
    then show ?thesis
      using less.prems False
      by (subst walk.simps) (simp split: option.splits)
  next
    case True
    let ?seg = "takeWhile (\<lambda>c. c \<noteq> CHR ''/'') pn"
    let ?rest = "tl (dropWhile (\<lambda>c. c \<noteq> CHR ''/'') pn)"
    have sg: "segments pn = ?seg # segments ?rest"
      using True by (subst segments.simps) simp
    note r = rest_after_slash [OF less.prems(1,2) True]
    have short: "length ?seg < 100" "list_all (\<lambda>seg. length seg < 100) (segments ?rest)"
      using less.prems(3) sg by simp_all
    have ih: "\<And>c'. walk hp c' ?rest = Inr (resolve_from hp c' (segments ?rest))"
      using r short(2) by (intro less.hyps) auto
    show ?thesis
      using True less.prems(1) ih short(1) sg
      by (subst walk.simps) (simp split: option.splits)
  qed
qed

lemma filetype_from_path_segments:
  assumes "p = CHR ''/'' # rest" "rest \<noteq> []"
    and "pn = (if last rest = CHR ''/'' then butlast rest else rest)"
    and "pn \<noteq> []" "last pn \<noteq> CHR ''/''"
    and "list_all (\<lambda>seg. length seg < 100) (segments pn)"
  shows "filetype_from_path s p = Inr (resolve_from (heap s) (root s) (segments pn))"
  using assms walk_segments [OF assms(4,5,6)]
  by (simp add: filetype_from_path_def Let_def)

subsection \<open>C9: \<^verbatim>\<open>myrmdir\<close>\<close>

lemma myrmdir_unfold:
  assumes "CHR ''/'' \<in> set p"
    and "filetype_from_path s (if before_rindex p = [] then ''/'' else before_rindex p) = Inr (Some d)"
    and "children (heap s d) \<noteq> []"
  shows "myrmdir e p s =
     (let cs = children (heap s d) in
      case child_index (heap s) cs (spare_cells (heap s d)) (after_rindex p) 0 of
        Inl err \<Rightarrow> Inl err
      | Inr index \<Rightarrow>
          if index < length cs then
            (if children (heap s (cs ! index)) \<noteq> [] then Inl ENOTEMPTY
             else
               (case save_contents e
                       (s\<lparr>heap := (heap s)(d := (heap s d)
                          \<lparr>children := take (length cs - 1) (shift_left cs (index + 1)),
                           spare_cells := spare_cells (heap s d) + 1\<rparr>)\<rparr>) of
                  Inl err \<Rightarrow> Inl err
                | Inr s' \<Rightarrow> Inr (0, s')))
          else Inl ENOENT)"
  using assms by (simp add: myrmdir_def used_def Let_def)

text \<open>
  What \<^verbatim>\<open>myrmdir\<close> does where nothing is overrun. Let \<open>p\<close> contain a separator, \<open>nm\<close>
  be what follows the last one and \<open>pp\<close> what precedes it (\<^verbatim>\<open>/\<close> when that is empty).
  Then \<^verbatim>\<open>myrmdir\<close>
  \<^item> returns \<^verbatim>\<open>-ENOENT\<close> when \<open>pp\<close> resolves to no entry;
  \<^item> returns \<^verbatim>\<open>-ENOENT\<close> when \<open>pp\<close> resolves to \<open>d\<close> and no child of \<open>d\<close> is named \<open>nm\<close>,
    unless \<open>d\<close> has children and their array has no spare cell: then the search loop
    reads the cell behind the array;
  \<^item> returns \<^verbatim>\<open>-ENOTEMPTY\<close> when the first child \<open>t\<close> of \<open>d\<close> named \<open>nm\<close> has a child
    (an error result carries no new state: nothing was changed);
  \<^item> otherwise returns 0, and the only change to the tree is that the children of \<open>d\<close>
    lose the element at the position \<open>i\<close> of \<open>t\<close>, the others keeping their order
    (\<open>take i cs @ drop (Suc i) cs\<close>), provided \<^verbatim>\<open>save_contents\<close> stays inside its queue on
    the new tree.
\<close>

lemma myrmdir_cases:
  assumes slash: "CHR ''/'' \<in> set p"
    and nm: "nm = after_rindex p"
    and pp: "pp = (if before_rindex p = [] then ''/'' else before_rindex p)"
  shows
    "(filetype_from_path s pp = Inr None \<longrightarrow> myrmdir e p s = Inl ENOENT)
     \<and> (\<forall>d. filetype_from_path s pp = Inr (Some d)
            \<and> find_child (heap s) (children (heap s d)) nm = None
          \<longrightarrow> myrmdir e p s
              = (if children (heap s d) \<noteq> [] \<and> spare_cells (heap s d) = 0
                 then Inl Fault else Inl ENOENT))
     \<and> (\<forall>d t. filetype_from_path s pp = Inr (Some d)
            \<and> find_child (heap s) (children (heap s d)) nm = Some t
            \<and> children (heap s t) \<noteq> []
          \<longrightarrow> myrmdir e p s = Inl ENOTEMPTY)
     \<and> (\<forall>d t. filetype_from_path s pp = Inr (Some d)
            \<and> find_child (heap s) (children (heap s d)) nm = Some t
            \<and> children (heap s t) = []
          \<longrightarrow> (\<exists>i < length (children (heap s d)).
                 children (heap s d) ! i = t
                 \<and> (persistable e (s\<lparr>heap := (heap s)(d := (heap s d)
                       \<lparr>children := take i (children (heap s d)) @ drop (Suc i) (children (heap s d)),
                        spare_cells := spare_cells (heap s d) + 1\<rparr>)\<rparr>)
                    \<longrightarrow> (\<exists>s'. myrmdir e p s = Inr (0, s')
                          \<and> heap s' = (heap s)(d := (heap s d)
                               \<lparr>children := take i (children (heap s d)) @ drop (Suc i) (children (heap s d)),
                                spare_cells := spare_cells (heap s d) + 1\<rparr>)
                          \<and> root s' = root s \<and> spblock s' = spblock s))))"
proof (intro conjI allI impI)
  assume "filetype_from_path s pp = Inr None"
  then show "myrmdir e p s = Inl ENOENT"
    using slash pp by (simp add: myrmdir_def used_def Let_def)
next
  fix d
  assume a: "filetype_from_path s pp = Inr (Some d)
    \<and> find_child (heap s) (children (heap s d)) nm = None"
  show "myrmdir e p s
      = (if children (heap s d) \<noteq> [] \<and> spare_cells (heap s d) = 0 then Inl Fault else Inl ENOENT)"
  proof (cases "children (heap s d) = []")
    case True
    then show ?thesis
      using slash pp a by (simp add: myrmdir_def used_def Let_def)
  next
    case False
    have res: "filetype_from_path s (if before_rindex p = [] then ''/'' else before_rindex p)
        = Inr (Some d)"
      using a pp by simp
    have "child_index (heap s) (children (heap s d)) (spare_cells (heap s d)) nm 0
        = (if spare_cells (heap s d) = 0 then Inl Fault else Inr (0 + length (children (heap s d))))"
      using a by (intro child_index_None) simp
    then show ?thesis
      using myrmdir_unfold [OF slash res False] nm False by (simp add: Let_def)
  qed
next
  fix d t
  assume a: "filetype_from_path s pp = Inr (Some d)
    \<and> find_child (heap s) (children (heap s d)) nm = Some t \<and> children (heap s t) \<noteq> []"
  let ?cs = "children (heap s d)"
  have ne: "?cs \<noteq> []" using a by auto
  have res: "filetype_from_path s (if before_rindex p = [] then ''/'' else before_rindex p)
      = Inr (Some d)"
    using a pp by simp
  from a child_index_Some [of "heap s" ?cs nm t "spare_cells (heap s d)" 0]
  obtain i where i: "child_index (heap s) ?cs (spare_cells (heap s d)) nm 0 = Inr i"
    "i < length ?cs" "?cs ! i = t"
    by auto
  show "myrmdir e p s = Inl ENOTEMPTY"
    using myrmdir_unfold [OF slash res ne] a nm i by (simp add: Let_def)
next
  fix d t
  assume a: "filetype_from_path s pp = Inr (Some d)
    \<and> find_child (heap s) (children (heap s d)) nm = Some t \<and> children (heap s t) = []"
  let ?cs = "children (heap s d)"
  have ne: "?cs \<noteq> []" using a by auto
  have res: "filetype_from_path s (if before_rindex p = [] then ''/'' else before_rindex p)
      = Inr (Some d)"
    using a pp by simp
  from a child_index_Some [of "heap s" ?cs nm t "spare_cells (heap s d)" 0]
  obtain i where i: "child_index (heap s) ?cs (spare_cells (heap s d)) nm 0 = Inr i"
    "i < length ?cs" "?cs ! i = t"
    by auto
  let ?s1 = "s\<lparr>heap := (heap s)(d := (heap s d)\<lparr>children := take i ?cs @ drop (Suc i) ?cs,
      spare_cells := spare_cells (heap s d) + 1\<rparr>)\<rparr>"
  have run: "myrmdir e p s =
      (case save_contents e ?s1 of Inl err \<Rightarrow> Inl err | Inr s' \<Rightarrow> Inr (0, s'))"
    using myrmdir_unfold [OF slash res ne] a nm i splice_eq [OF i(2)]
    by (simp add: Let_def)
  have "persistable e ?s1 \<longrightarrow> (\<exists>s'. myrmdir e p s = Inr (0, s') \<and> heap s' = heap ?s1
      \<and> root s' = root s \<and> spblock s' = spblock s)"
  proof
    assume "persistable e ?s1"
    then obtain fa where "save_contents e ?s1 = Inr (?s1\<lparr>file_array := fa\<rparr>)"
      using persistable_save by blast
    with run show "\<exists>s'. myrmdir e p s = Inr (0, s') \<and> heap s' = heap ?s1
      \<and> root s' = root s \<and> spblock s' = spblock s"
      by simp
  qed
  with i show "\<exists>i < length ?cs. ?cs ! i = t
     \<and> (persistable e (s\<lparr>heap := (heap s)(d := (heap s d)\<lparr>children := take i ?cs @ drop (Suc i) ?cs,
          spare_cells := spare_cells (heap s d) + 1\<rparr>)\<rparr>)
        \<longrightarrow> (\<exists>s'. myrmdir e p s = Inr (0, s')
              \<and> heap s' = (heap s)(d := (heap s d)\<lparr>children := take i ?cs @ drop (Suc i) ?cs,
                   spare_cells := spare_cells (heap s d) + 1\<rparr>)
              \<and> root s' = root s \<and> spblock s' = spblock s))"
    by (intro exI [of _ i]) simp
qed

lemma wide_facts:
  "root (wide_fs k) = 100"
  "valid (heap (wide_fs k) 100) = 1"
  "children (heap (wide_fs k) 100) = [101, 102, 103, 104, 105]"
  "spare_cells (heap (wide_fs k) 100) = 0"
  "name (heap (wide_fs k) 101) = ''a''"
  "children (heap (wide_fs k) 101) = []"
  "children (heap (wide_fs k) 102) = []"
  "children (heap (wide_fs k) 103) = []"
  "children (heap (wide_fs k) 104) = []"
  "valid (heap (wide_fs k) 105) = 1"
  "length (children (heap (wide_fs k) 105)) = k"
  by (simp_all add: wide_fs_def wide_heap_def entry_def zero_filetype_def)

text \<open>
  While the directories under \<^verbatim>\<open>/e\<close> are made, \<^verbatim>\<open>/e\<close> is the fifth child of the root and
  is written to slot 5: its children are never put into the queue, and every
  \<^verbatim>\<open>save_contents\<close> stays inside the queue, however many they are.
\<close>

lemma wide_persistable: "persistable zero_env (wide_fs k)"
proof -
  have nb: "\<not> rear_below_front zero_env" by (simp add: zero_env_def)
  have G: "valid (heap (wide_fs k) (root (wide_fs k))) \<noteq> 0 \<longrightarrow>
      (\<forall>i<4. i < length (children (heap (wide_fs k) (root (wide_fs k))))
         \<longrightarrow> valid (heap (wide_fs k) (children (heap (wide_fs k) (root (wide_fs k))) ! i)) \<noteq> 0
         \<longrightarrow> length (children (heap (wide_fs k) (children (heap (wide_fs k) (root (wide_fs k))) ! i))) \<le> 5)"
  proof (intro impI allI)
    fix i :: nat
    assume "i < 4"
    then consider "i = 0" | "i = 1" | "i = 2" | "i = 3" by arith
    then show "length (children (heap (wide_fs k)
        (children (heap (wide_fs k) (root (wide_fs k))) ! i))) \<le> 5"
      by cases (simp_all add: wide_facts)
  qed
  from save_contents_run [OF nb _ G refl refl] show ?thesis
    by (auto simp: persistable_def wide_facts)
qed

text \<open>
  C9 (for every tree, \<^verbatim>\<open>rmdir\<close> of an empty directory that exists splices exactly the
  target out of the children of its parent). In the tree \<open>wide_fs 40\<close> the root has the
  empty directories \<^verbatim>\<open>/a\<close>, \<^verbatim>\<open>/b\<close>, \<^verbatim>\<open>/c\<close>, \<^verbatim>\<open>/d\<close> and the directory \<^verbatim>\<open>/e\<close> with 40
  directories in it: 45 calls of \<^verbatim>\<open>mymkdir\<close>, each of which could persist the tree
  (\<open>wide_persistable\<close>). \<^verbatim>\<open>myrmdir\<close> of \<^verbatim>\<open>/a\<close> finds the parent and the target, which is
  empty, takes the target out of the children of the root and calls \<^verbatim>\<open>save_contents\<close>.
  Now \<^verbatim>\<open>/e\<close> is the fourth child and is written to slot 4, one of the slots whose
  children go into the queue: 21 cells of the queue are in use, the 40 children of
  \<^verbatim>\<open>/e\<close> follow, and the last of them is written to \<^verbatim>\<open>queue[60]\<close>, behind the 60 cells
  \<^verbatim>\<open>save_contents\<close> allocated.
\<close>

theorem C9_rmdir_overruns_queue:
  "persistable zero_env (wide_fs 40)
   \<and> children (heap (wide_fs 40) 100) = [101, 102, 103, 104, 105]
   \<and> length (children (heap (wide_fs 40) 105)) = 40
   \<and> filetype_from_path (wide_fs 40) ''/'' = Inr (Some 100)
   \<and> find_child (heap (wide_fs 40)) (children (heap (wide_fs 40) 100)) ''a'' = Some 101
   \<and> children (heap (wide_fs 40) 101) = []
   \<and> myrmdir zero_env ''/a'' (wide_fs 40) = Inl Fault"
proof -
  let ?s = "wide_fs 40"
  let ?cs = "[101, 102, 103, 104, 105] :: nat list"
  have nb: "\<not> rear_below_front zero_env" by (simp add: zero_env_def)
  have res: "filetype_from_path ?s ''/'' = Inr (Some 100)"
    by (simp add: filetype_from_path_def wide_facts)
  have fc: "find_child (heap ?s) (children (heap ?s 100)) ''a'' = Some 101"
    by (simp add: wide_facts)
  have ci: "child_index (heap ?s) ?cs (spare_cells (heap ?s 100)) ''a'' 0 = Inr 0"
    by (simp add: wide_facts)
  have sp: "take (length ?cs - 1) (shift_left ?cs (0 + 1)) = [102, 103, 104, 105]"
    using splice_eq [of 0 ?cs] by simp
  let ?s1 = "?s\<lparr>heap := (heap ?s)(100 := (heap ?s 100)
      \<lparr>children := [102, 103, 104, 105], spare_cells := spare_cells (heap ?s 100) + 1\<rparr>)\<rparr>"
  have run: "myrmdir zero_env ''/a'' ?s =
      (case save_contents zero_env ?s1 of Inl err \<Rightarrow> Inl err | Inr s' \<Rightarrow> Inr (0, s'))"
    using myrmdir_unfold [of "''/a''" ?s 100 zero_env] res ci sp
    by (simp add: demo_paths wide_facts Let_def)
  have "tree_to_array zero_env (heap ?s1)
      ((fresh_queue zero_env)(0 := heap ?s1 (root ?s1)), 0, 0, 0, file_array ?s1) = Inl Fault"
  proof (rule flatten_overflow [OF nb])
    show "valid (heap ?s1 (root ?s1)) \<noteq> 0" "children (heap ?s1 (root ?s1)) \<noteq> []"
      "length (children (heap ?s1 (root ?s1))) \<le> 5"
      by (simp_all add: wide_facts)
    show "\<forall>i<3. i < length (children (heap ?s1 (root ?s1)))
        \<longrightarrow> valid (heap ?s1 (children (heap ?s1 (root ?s1)) ! i)) \<noteq> 0
        \<longrightarrow> length (children (heap ?s1 (children (heap ?s1 (root ?s1)) ! i))) \<le> 5"
    proof (intro allI impI)
      fix i :: nat
      assume "i < 3"
      then consider "i = 0" | "i = 1" | "i = 2" by arith
      then show "length (children (heap ?s1 (children (heap ?s1 (root ?s1)) ! i))) \<le> 5"
        by cases (simp_all add: wide_facts)
    qed
    show "3 < length (children (heap ?s1 (root ?s1)))"
      "valid (heap ?s1 (children (heap ?s1 (root ?s1)) ! 3)) \<noteq> 0"
      "39 < length (children (heap ?s1 (children (heap ?s1 (root ?s1)) ! 3)))"
      by (simp_all add: wide_facts)
  qed
  then have "save_contents zero_env ?s1 = Inl Fault"
    by (simp add: save_contents_def)
  with run have "myrmdir zero_env ''/a'' ?s = Inl Fault" by simp
  with res fc wide_persistable [of 40] show ?thesis
    by (simp add: wide_facts)
qed

subsection \<open>C8: \<^verbatim>\<open>myrename\<close>\<close>

lemma after_rindex_length: "length (after_rindex p) \<le> length p"
  using length_takeWhile_le [of "\<lambda>c. c \<noteq> CHR ''/''" "rev p"] by (simp add: after_rindex_def)

text \<open>
  What \<^verbatim>\<open>myrename\<close> does where nothing is overrun. When \<open>from_path\<close> resolves to the
  entry \<open>a\<close>, \<open>to_path\<close> contains a separator and has fewer than 100 characters, and
  \<^verbatim>\<open>save_contents\<close> stays inside its queue on the tree, \<^verbatim>\<open>myrename\<close> returns 0 and the
  new state differs from the old one in the tree only at \<open>a\<close>, and there only in
  \<open>path\<close> (now \<open>to_path\<close>) and \<open>name\<close> (now the last segment of \<open>to_path\<close>): every
  other entry is the same, no list of children and no parent pointer has changed, and
  the root and the superblock are the same.
\<close>

lemma myrename_frame:
  assumes "filetype_from_path s from_path = Inr (Some a)"
    and "CHR ''/'' \<in> set to_path" "length to_path < 100"
    and "persistable e s"
  shows "\<exists>s'. myrename e from_path to_path s = Inr (0, s')
     \<and> heap s' a = (heap s a)\<lparr>path := to_path, name := after_rindex to_path\<rparr>
     \<and> (\<forall>b. b \<noteq> a \<longrightarrow> heap s' b = heap s b)
     \<and> (\<forall>b. children (heap s' b) = children (heap s b) \<and> parent (heap s' b) = parent (heap s b))
     \<and> root s' = root s \<and> spblock s' = spblock s"
proof -
  let ?s1 = "s\<lparr>heap := (heap s)(a := (heap s a)\<lparr>path := to_path, name := after_rindex to_path\<rparr>)\<rparr>"
  have "persistable e ?s1 = persistable e s"
    by (rule persistable_shape) (simp_all add: shape_def)
  with assms(4) obtain fa where "save_contents e ?s1 = Inr (?s1\<lparr>file_array := fa\<rparr>)"
    using persistable_save by blast
  moreover have "length (after_rindex to_path) < 100"
    using after_rindex_length [of to_path] assms(3) by arith
  ultimately have "myrename e from_path to_path s = Inr (0, ?s1\<lparr>file_array := fa\<rparr>)"
    using assms(1,2,3) by (simp add: myrename_def used_def)
  then show ?thesis
    by (intro exI [of _ "?s1\<lparr>file_array := fa\<rparr>"]) simp
qed

text \<open>
  C8 (for every entry resolvable at the old path, \<^verbatim>\<open>rename\<close> overwrites only the name,
  with the last segment of the new path, and the path, with the new path). In the demo
  tree \<^verbatim>\<open>/a/c\<close> is renamed to a path of 100 characters, \<^verbatim>\<open>/b/\<close> followed by 97 times
  \<^verbatim>\<open>z\<close>. The last segment (97 characters) fits into \<^verbatim>\<open>char name[100]\<close>, but
  \<^verbatim>\<open>strcpy(file->path, to)\<close> writes 101 bytes into \<^verbatim>\<open>char path[100]\<close>: the terminator
  lands behind the array, in the first byte of the field \<^verbatim>\<open>name\<close> that follows it in
  the struct. With one \<^verbatim>\<open>z\<close> less the new path has 99 characters and the rename does
  what the claim says.
\<close>

theorem C8_rename_overruns_path:
  "filetype_from_path demo_fs ''/a/c'' = Inr (Some 103)
   \<and> length (''/b/'' @ replicate 97 CHR ''z'') = 100
   \<and> after_rindex (''/b/'' @ replicate 97 CHR ''z'') = replicate 97 CHR ''z''
   \<and> myrename zero_env ''/a/c'' (''/b/'' @ replicate 97 CHR ''z'') demo_fs = Inl Fault
   \<and> (\<exists>s'. myrename zero_env ''/a/c'' (''/b/'' @ replicate 96 CHR ''z'') demo_fs = Inr (0, s')
          \<and> name (heap s' 103) = replicate 96 CHR ''z''
          \<and> path (heap s' 103) = ''/b/'' @ replicate 96 CHR ''z'')"
proof -
  have ar: "\<And>n. after_rindex (''/b/'' @ replicate n CHR ''z'') = replicate n CHR ''z''"
  proof -
    fix n :: nat
    have "takeWhile (\<lambda>c. c \<noteq> CHR ''/'') (replicate n CHR ''z'' @ ''/b/'')
        = replicate n CHR ''z'' @ takeWhile (\<lambda>c. c \<noteq> CHR ''/'') ''/b/''"
      by (rule takeWhile_append2) simp
    then show "after_rindex (''/b/'' @ replicate n CHR ''z'') = replicate n CHR ''z''"
      by (simp add: after_rindex_def)
  qed
  have 1: "myrename zero_env ''/a/c'' (''/b/'' @ replicate 97 CHR ''z'') demo_fs = Inl Fault"
    using demo_resolve(4) by (simp add: myrename_def used_def ar)
  have p: "persistable zero_env demo_fs"
    using demo_fanout by (rule persistable_fanout)
  from myrename_frame [OF demo_resolve(4) _ _ p, of "''/b/'' @ replicate 96 CHR ''z''"]
  obtain s' where "myrename zero_env ''/a/c'' (''/b/'' @ replicate 96 CHR ''z'') demo_fs = Inr (0, s')"
    "heap s' 103 = (heap demo_fs 103)\<lparr>path := ''/b/'' @ replicate 96 CHR ''z'',
       name := after_rindex (''/b/'' @ replicate 96 CHR ''z'')\<rparr>"
    by auto
  then have 2: "\<exists>s'. myrename zero_env ''/a/c'' (''/b/'' @ replicate 96 CHR ''z'') demo_fs = Inr (0, s')
          \<and> name (heap s' 103) = replicate 96 CHR ''z''
          \<and> path (heap s' 103) = ''/b/'' @ replicate 96 CHR ''z''"
    using ar [of 96] by (intro exI [of _ s']) simp
  from 1 2 demo_resolve(4) ar [of 97] show ?thesis by simp
qed

subsection \<open>C4: \<^verbatim>\<open>tree_to_array\<close> as called by \<^verbatim>\<open>save_contents\<close>\<close>

lemma valid_waste_node: "valid (waste_node e) = 0"
  by (simp add: waste_node_def)

lemma fanout_okI:
  assumes "length (children (heap s (root s))) \<le> 5"
    and "\<forall>c\<in>set (children (heap s (root s))). length (children (heap s c)) \<le> 5"
  shows "fanout_ok s"
  using assms by (simp add: fanout_ok_def list_all_iff)

lemma demo_bfs: "bfs_order (heap demo_fs) 31 [root demo_fs] = [100, 101, 102, 103, 104, 105, 106]"
  by (simp add: demo_defs numeral_eq_Suc)


lemma demo_root: "root demo_fs = 100" "valid (heap demo_fs 100) = 1"
  by (simp_all add: demo_defs)

lemma demo_small:
  "length (children (heap demo_fs (root demo_fs))) \<le> 5"
  "\<forall>c\<in>set (children (heap demo_fs (root demo_fs))). length (children (heap demo_fs c)) \<le> 5"
  by (simp_all add: demo_defs)

lemma demo_padded:
  "padded_child zero_env (heap demo_fs) (heap demo_fs 100) 0 = heap demo_fs 101"
  "padded_child zero_env (heap demo_fs) (heap demo_fs 100) 1 = heap demo_fs 102"
  "padded_child zero_env (heap demo_fs) (heap demo_fs 100) 2 = waste_node zero_env"
  "padded_child zero_env (heap demo_fs) (heap demo_fs 101) 0 = heap demo_fs 103"
  "padded_child zero_env (heap demo_fs) (heap demo_fs 101) 1 = waste_node zero_env"
  "padded_child zero_env (heap demo_fs) (heap demo_fs 102) 0 = heap demo_fs 104"
  "padded_child zero_env (heap demo_fs) (heap demo_fs 102) 1 = heap demo_fs 105"
  "padded_child zero_env (heap demo_fs) (heap demo_fs 102) 2 = heap demo_fs 106"
  "padded_child zero_env (heap demo_fs) (heap demo_fs 102) 3 = waste_node zero_env"
  by (simp_all add: padded_child_def demo_defs)

text \<open>
  C4, as amended. Let the root be valid with at most five children, let each of these
  have at most five children, and let the pointer comparison at the head of
  \<^verbatim>\<open>tree_to_array\<close> be false. Then \<^verbatim>\<open>save_contents\<close> changes nothing but \<open>file_array\<close>,
  and in it
  \<^item> slot 0 is the root;
  \<^item> slots 1 to 5 are the children of the root in order, then invalid entries
    (\<open>padded_child\<close>);
  \<^item> when the root has a child: slots 6 to 10 are the children of the entry in slot 1,
    padded with invalid entries to five in the same way, slots 11 to 15 those of slot 2,
    slots 16 to 20 those of slot 3 and slots 21 to 25 those of slot 4 (five invalid
    entries where that slot is itself a padding entry).
  The source pads while \<^verbatim>\<open>*index < 6\<close> after the increment, that is for the entries
  written to the slots 0 to 4, not for the root alone. Nothing is stated about the slots
  26 to 30.
\<close>

theorem C4_flatten_layout:
  assumes nb: "\<not> rear_below_front e"
    and v: "valid (heap s (root s)) \<noteq> 0"
    and k: "length (children (heap s (root s))) \<le> 5"
    and g: "\<forall>c\<in>set (children (heap s (root s))). length (children (heap s c)) \<le> 5"
  shows "\<exists>s'. save_contents e s = Inr s'
     \<and> heap s' = heap s \<and> root s' = root s \<and> spblock s' = spblock s
     \<and> file_array s' 0 = heap s (root s)
     \<and> (\<forall>i<5. file_array s' (1 + i) = padded_child e (heap s) (heap s (root s)) i)
     \<and> (children (heap s (root s)) \<noteq> [] \<longrightarrow>
          (\<forall>i<5. file_array s' (6 + i) = padded_child e (heap s) (file_array s' 1) i)
        \<and> (\<forall>i<5. file_array s' (11 + i) = padded_child e (heap s) (file_array s' 2) i)
        \<and> (\<forall>i<5. file_array s' (16 + i) = padded_child e (heap s) (file_array s' 3) i)
        \<and> (\<forall>i<5. file_array s' (21 + i) = padded_child e (heap s) (file_array s' 4) i))
     \<and> valid (waste_node e) = 0"
proof -
  let ?rn = "heap s (root s)"
  let ?pc = "padded_child e (heap s)"
  define r1 :: nat where "r1 = (if valid ?rn \<noteq> 0 \<and> children ?rn \<noteq> [] then 1 else 0)"
  have ok: "fanout_ok s" using k g by (rule fanout_okI)
  from save_contents_run [OF nb fanout_ok_fits [OF ok] refl r1_def]
  obtain fa where save: "save_contents e s = Inr (s\<lparr>file_array := fa\<rparr>)"
    and f0: "fa 0 = ?rn"
    and c1: "\<forall>i<5. 1 \<le> r1 + i \<longrightarrow> fa (r1 + i) = ?pc ?rn i"
    and c2: "\<forall>i<5. fa (r1 + 5 + i) = ?pc (fa 1) i"
    and c3: "\<forall>i<5. fa (r1 + 10 + i) = ?pc (fa 2) i"
    and c4: "\<forall>i<5. fa (r1 + 15 + i) = ?pc (fa 3) i"
    and c5: "\<forall>i<5. fa (r1 + 20 + i) = ?pc (fa 4) i"
    by blast
  have first: "\<forall>i<5. fa (1 + i) = ?pc ?rn i"
  proof (intro allI impI)
    fix i :: nat assume i: "i < 5"
    show "fa (1 + i) = ?pc ?rn i"
    proof (cases "children ?rn = []")
      case False
      then have "r1 = 1" using v by (simp add: r1_def)
      with c1 i show ?thesis by simp
    next
      case True
      then have r: "r1 = 0" by (simp add: r1_def)
      have w: "\<And>j. ?pc ?rn j = waste_node e"
        using True by (simp add: padded_child_def)
      show ?thesis
      proof (cases "i < 4")
        case True
        then have "fa (r1 + (1 + i)) = ?pc ?rn (1 + i)"
          using c1 [rule_format, of "1 + i"] by simp
        then show ?thesis using r w by simp
      next
        case False
        with i have i4: "i = 4" by arith
        have "fa 1 = waste_node e"
          using c1 [rule_format, of 1] r w by simp
        moreover have "fa (r1 + 5 + 0) = ?pc (fa 1) 0"
          using c2 [rule_format, of 0] by simp
        ultimately show ?thesis using r w i4 by simp
      qed
    qed
  qed
  have deep: "children ?rn \<noteq> [] \<longrightarrow>
          (\<forall>i<5. fa (6 + i) = ?pc (fa 1) i)
        \<and> (\<forall>i<5. fa (11 + i) = ?pc (fa 2) i)
        \<and> (\<forall>i<5. fa (16 + i) = ?pc (fa 3) i)
        \<and> (\<forall>i<5. fa (21 + i) = ?pc (fa 4) i)"
  proof
    assume "children ?rn \<noteq> []"
    then have "r1 = 1" using v by (simp add: r1_def)
    with c2 c3 c4 c5 show "(\<forall>i<5. fa (6 + i) = ?pc (fa 1) i)
        \<and> (\<forall>i<5. fa (11 + i) = ?pc (fa 2) i)
        \<and> (\<forall>i<5. fa (16 + i) = ?pc (fa 3) i)
        \<and> (\<forall>i<5. fa (21 + i) = ?pc (fa 4) i)"
      by simp
  qed
  show ?thesis
    using save f0 first deep valid_waste_node by (intro exI [of _ "s\<lparr>file_array := fa\<rparr>"]) simp
qed

text \<open>
  On the demo tree: \<^verbatim>\<open>/a/c\<close> is in slot 6, and the children of \<^verbatim>\<open>/b\<close> start in
  slot 11.
\<close>

theorem C4_flatten_layout_witness:
  "\<exists>s'. save_contents zero_env demo_fs = Inr s'
     \<and> file_array s' 0 = heap demo_fs 100
     \<and> file_array s' 1 = heap demo_fs 101
     \<and> file_array s' 2 = heap demo_fs 102
     \<and> valid (file_array s' 3) = 0
     \<and> file_array s' 6 = heap demo_fs 103
     \<and> valid (file_array s' 7) = 0
     \<and> file_array s' 11 = heap demo_fs 104
     \<and> file_array s' 12 = heap demo_fs 105
     \<and> file_array s' 13 = heap demo_fs 106
     \<and> valid (file_array s' 14) = 0"
proof -
  have nb: "\<not> rear_below_front zero_env" by (simp add: zero_env_def)
  have v: "valid (heap demo_fs (root demo_fs)) \<noteq> 0" by (simp add: demo_root)
  have ne: "children (heap demo_fs (root demo_fs)) \<noteq> []" by (simp add: demo_defs)
  from C4_flatten_layout [OF nb v demo_small] ne
  obtain s' where save: "save_contents zero_env demo_fs = Inr s'"
    and f0: "file_array s' 0 = heap demo_fs (root demo_fs)"
    and a: "\<forall>i<5. file_array s' (1 + i)
        = padded_child zero_env (heap demo_fs) (heap demo_fs (root demo_fs)) i"
    and b: "\<forall>i<5. file_array s' (6 + i) = padded_child zero_env (heap demo_fs) (file_array s' 1) i"
    and c: "\<forall>i<5. file_array s' (11 + i) = padded_child zero_env (heap demo_fs) (file_array s' 2) i"
    by blast
  have s1: "file_array s' 1 = heap demo_fs 101"
    using a [rule_format, of 0] demo_root demo_padded
    by (simp add: eval_nat_numeral)
  have s2: "file_array s' 2 = heap demo_fs 102"
    using a [rule_format, of 1] demo_root demo_padded
    by (simp add: eval_nat_numeral)
  have s3: "valid (file_array s' 3) = 0"
    using a [rule_format, of 2] demo_root demo_padded valid_waste_node
    by (simp add: eval_nat_numeral)
  have s6: "file_array s' 6 = heap demo_fs 103"
    using b [rule_format, of 0] s1 demo_padded
    by (simp add: eval_nat_numeral)
  have s7: "valid (file_array s' 7) = 0"
    using b [rule_format, of 1] s1 demo_padded valid_waste_node
    by (simp add: eval_nat_numeral)
  have s11: "file_array s' 11 = heap demo_fs 104"
    using c [rule_format, of 0] s2 demo_padded
    by (simp add: eval_nat_numeral)
  have s12: "file_array s' 12 = heap demo_fs 105"
    using c [rule_format, of 1] s2 demo_padded
    by (simp add: eval_nat_numeral)
  have s13: "file_array s' 13 = heap demo_fs 106"
    using c [rule_format, of 2] s2 demo_padded
    by (simp add: eval_nat_numeral)
  have s14: "valid (file_array s' 14) = 0"
    using c [rule_format, of 3] s2 demo_padded valid_waste_node
    by (simp add: eval_nat_numeral)
  show ?thesis
    using save f0 s1 s2 s3 s6 s7 s11 s12 s13 s14 by (intro exI [of _ s']) (simp add: demo_root)
qed

text \<open>
  C4 as stated (behind slot 5 the entries follow in breadth-first order with no further
  padding) fails on the demo tree: breadth-first, the entries behind the children of the
  root are \<^verbatim>\<open>/a/c\<close>, \<^verbatim>\<open>/b/d\<close>, ..., so slot 7 would hold \<^verbatim>\<open>/b/d\<close>. The code puts an
  invalid entry into slot 7 and \<^verbatim>\<open>/b/d\<close> into slot 11.
\<close>

theorem C4_second_level_is_padded:
  "\<exists>s'. save_contents zero_env demo_fs = Inr s'
     \<and> file_array s' 6 = heap demo_fs 103
     \<and> valid (file_array s' 7) = 0
     \<and> file_array s' 11 = heap demo_fs 104
     \<and> map (file_array s') [6, 7]
         \<noteq> map (heap demo_fs) (take 2 (drop 3 (bfs_order (heap demo_fs) 31 [root demo_fs])))"
proof -
  have nb: "\<not> rear_below_front zero_env" by (simp add: zero_env_def)
  have r1: "(1::nat) = (if valid (heap demo_fs (root demo_fs)) \<noteq> 0
      \<and> children (heap demo_fs (root demo_fs)) \<noteq> [] then 1 else 0)"
    by (simp add: demo_defs)
  from save_contents_run [OF nb fanout_ok_fits [OF demo_fanout] refl r1]
  obtain fa where save: "save_contents zero_env demo_fs = Inr (demo_fs\<lparr>file_array := fa\<rparr>)"
    and a: "\<forall>i<5. 1 \<le> 1 + i \<longrightarrow> fa (1 + i)
        = padded_child zero_env (heap demo_fs) (heap demo_fs (root demo_fs)) i"
    and b: "\<forall>i<5. fa (1 + 5 + i) = padded_child zero_env (heap demo_fs) (fa 1) i"
    and c: "\<forall>i<5. fa (1 + 10 + i) = padded_child zero_env (heap demo_fs) (fa 2) i"
    by blast
  have s1: "fa 1 = heap demo_fs 101"
    using a [rule_format, of 0] demo_root demo_padded
    by (simp add: eval_nat_numeral)
  have s2: "fa 2 = heap demo_fs 102"
    using a [rule_format, of 1] demo_root demo_padded
    by (simp add: eval_nat_numeral)
  have s6: "fa 6 = heap demo_fs 103"
    using b [rule_format, of 0] s1 demo_padded
    by (simp add: eval_nat_numeral)
  have s7: "valid (fa 7) = 0"
    using b [rule_format, of 1] s1 demo_padded valid_waste_node
    by (simp add: eval_nat_numeral)
  have s11: "fa 11 = heap demo_fs 104"
    using c [rule_format, of 0] s2 demo_padded
    by (simp add: eval_nat_numeral)
  have d: "valid (heap demo_fs 104) = 1" by (simp add: demo_defs)
  have "fa 7 \<noteq> heap demo_fs 104"
    using s7 d by auto
  then have ne: "map fa [6, 7]
      \<noteq> map (heap demo_fs) (take 2 (drop 3 (bfs_order (heap demo_fs) 31 [root demo_fs])))"
    by (simp add: demo_bfs)
  show ?thesis
    using save s6 s7 s11 ne by (intro exI [of _ "demo_fs\<lparr>file_array := fa\<rparr>"]) simp
qed

section \<open>The claims about file content\<close>

lemma find_child_cong:
  "\<forall>x. name (hp' x) = name (hp x) \<Longrightarrow> find_child hp' cs nm = find_child hp cs nm"
  by (induction cs) simp_all

lemma walk_cong:
  assumes "\<forall>x. name (hp' x) = name (hp x)" "\<forall>x. children (hp' x) = children (hp x)"
  shows "walk hp' c pn = walk hp c pn"
proof (induction "length pn" arbitrary: c pn rule: less_induct)
  case less
  let ?seg = "takeWhile (\<lambda>c. c \<noteq> CHR ''/'') pn"
  let ?rest = "tl (dropWhile (\<lambda>c. c \<noteq> CHR ''/'') pn)"
  note fc = find_child_cong [OF assms(1)]
  show ?case
  proof (cases "pn \<noteq> [] \<and> CHR ''/'' \<in> set pn")
    case False
    then show ?thesis
      using fc assms(2) by (subst (1 2) walk.simps) auto
  next
    case True
    then have "dropWhile (\<lambda>c. c \<noteq> CHR ''/'') pn \<noteq> []" by auto
    then have "length ?rest < length (dropWhile (\<lambda>c. c \<noteq> CHR ''/'') pn)"
      by (cases "dropWhile (\<lambda>c. c \<noteq> CHR ''/'') pn") auto
    also have "\<dots> \<le> length pn" by (rule length_dropWhile_le)
    finally have "\<And>c'. walk hp' c' ?rest = walk hp c' ?rest"
      by (rule less.hyps)
    then show ?thesis
      using True fc assms(2) by (subst (1 2) walk.simps) (simp split: option.splits)
  qed
qed

lemma filetype_from_path_cong:
  assumes "root s' = root s" "\<forall>x. name (heap s' x) = name (heap s x)"
    "\<forall>x. children (heap s' x) = children (heap s x)"
  shows "filetype_from_path s' p = filetype_from_path s p"
  using assms walk_cong [OF assms(2,3)] by (simp add: filetype_from_path_def Let_def)

lemma mywrite_run:
  assumes res: "filetype_from_path s p = Inr (Some a)" and fits: "length p \<le> sizeof_ptr"
    and wd: "write_data e (c_str buf) (sb_datablocks (spblock s)) (heap s a) = Inr (m', f')"
    and sh: "valid f' = valid (heap s a)" "children f' = children (heap s a)"
      "name f' = name (heap s a)"
    and pers: "persistable e s"
  shows "\<exists>s'. mywrite e p buf s = Inr (int (length (c_str buf)), s')
     \<and> heap s' = (heap s)(a := f') \<and> sb_datablocks (spblock s') = m' \<and> root s' = root s
     \<and> persistable e s' \<and> filetype_from_path s' p = Inr (Some a)"
proof -
  let ?s1 = "s\<lparr>spblock := (spblock s)\<lparr>sb_datablocks := m'\<rparr>, heap := (heap s)(a := f')\<rparr>"
  have p1: "persistable e ?s1 = persistable e s"
    using sh by (intro persistable_shape) (simp_all add: shape_def)
  with pers obtain fa where save: "save_contents e ?s1 = Inr (?s1\<lparr>file_array := fa\<rparr>)"
    using persistable_save by blast
  let ?s' = "?s1\<lparr>file_array := fa\<rparr>"
  have run: "mywrite e p buf s = Inr (int (length (c_str buf)), ?s')"
    using res fits wd save by (simp add: mywrite_def used_def)
  have p2: "persistable e ?s' = persistable e s"
    using sh by (intro persistable_shape) (simp_all add: shape_def)
  have r2: "filetype_from_path ?s' p = filetype_from_path s p"
    using sh by (intro filetype_from_path_cong) simp_all
  show ?thesis
    using run p2 pers r2 res by (intro exI [of _ ?s']) simp
qed

lemma write_data_empty:
  assumes "size_bytes f = 0" "block_ref f 0 = Inr ad" "NUL \<notin> set str" "ad + length str < arena_size"
  shows "\<exists>m'. write_data e str m f = Inr (m', f\<lparr>size_bytes := length str, blocks := blocks f + 1\<rparr>)
     \<and> cstr_at m' ad str \<and> (\<forall>x. x < ad \<or> ad + length str < x \<longrightarrow> m' x = m x)"
proof -
  from strcpy_arena_cstr [OF assms(3,4), of m]
  obtain m' where "strcpy_arena m ad str = Inr m'" "cstr_at m' ad str"
    "\<forall>x. x < ad \<or> ad + length str < x \<longrightarrow> m' x = m x"
    by blast
  then show ?thesis
    using assms(1,2) by (simp add: write_data_def)
qed

lemma write_data_fits:
  assumes "size_bytes f \<noteq> 0" "length str \<le> 1024 - size_bytes f mod 1024"
    "block_ref f (blocks f - 1) = Inr ad" "cstr_at m ad old" "NUL \<notin> set str"
    "ad + length old + length str < arena_size"
  shows "\<exists>m'. write_data e str m f = Inr (m', f\<lparr>size_bytes := size_bytes f + length str\<rparr>)
     \<and> cstr_at m' ad (old @ str)
     \<and> (\<forall>x. x < ad + length old \<or> ad + length old + length str < x \<longrightarrow> m' x = m x)"
proof -
  from strcat_arena_cstr [OF assms(4,5,6)]
  obtain m' where "strcat_arena m ad str = Inr m'" "cstr_at m' ad (old @ str)"
    "\<forall>x. x < ad + length old \<or> ad + length old + length str < x \<longrightarrow> m' x = m x"
    by blast
  then show ?thesis
    using assms(1,2,3) by (simp add: write_data_def Let_def)
qed

lemma myread_one_block:
  assumes "filetype_from_path s p = Inr (Some a)" "blocks (heap s a) = 1"
    "block_ref (heap s a) 0 = Inr ad" "cstr_at (sb_datablocks (spblock s)) ad content"
    "length p \<le> sizeof_ptr"
  shows "myread p s = Inr (take (size_bytes (heap s a) mod 1024) content, int (size_bytes (heap s a)))"
proof -
  have "read_loop (sb_datablocks (spblock s)) (heap s a) 0 [] = Inr (0, [])"
    using assms(2) by (subst read_loop.simps) simp
  then show ?thesis
    using assms(1,2,3,5) c_strn_cstr [OF assms(4)] by (simp add: myread_def used_def Let_def)
qed

lemma block_ref_in_range:
  assumes "0 \<le> i" "i < 16" "0 \<le> datablocks f (nat i)" "datablocks f (nat i) < 100"
  shows "block_ref f i = Inr (block_size * nat (datablocks f (nat i)))"
    and "block_size * nat (datablocks f (nat i)) + block_size \<le> arena_size"
  using assms by (simp_all add: block_ref_def Let_def arena_size_def block_size_def)

subsection \<open>C5: two short writes and a read\<close>

text \<open>
  What the two writes and the read do where nothing is overrun. Let \<open>p\<close>, of at most
  \<^verbatim>\<open>sizeof(path)\<close> = 8 characters, resolve to an entry as \<^verbatim>\<open>mycreate\<close> leaves it (size
  0, no block in use) whose first block reference is a block of the arena, on a tree
  that \<^verbatim>\<open>save_contents\<close> can persist. Then writing \<^verbatim>\<open>Hello\<close> returns 5, writing
  \<^verbatim>\<open> World\<close> after it returns 6, and reading gives the content \<^verbatim>\<open>Hello World\<close> and the
  length 11.
\<close>

lemma write_write_read:
  assumes res: "filetype_from_path s p = Inr (Some a)" and fits: "length p \<le> sizeof_ptr"
    and fresh: "size_bytes (heap s a) = 0" "blocks (heap s a) = 0"
    and ref: "0 \<le> datablocks (heap s a) 0" "datablocks (heap s a) 0 < 100"
    and pers: "persistable e s"
  shows "\<exists>s1 s2. mywrite e p ''Hello'' s = Inr (5, s1)
     \<and> mywrite e p '' World'' s1 = Inr (6, s2)
     \<and> myread p s2 = Inr (''Hello World'', 11)"
proof -
  let ?f = "heap s a"
  let ?ad = "block_size * nat (datablocks ?f 0)"
  have br: "block_ref ?f 0 = Inr ?ad" and room: "?ad + block_size \<le> arena_size"
    using block_ref_in_range [of 0 ?f] ref by simp_all
  have cs: "c_str ''Hello'' = ''Hello''" "c_str '' World'' = '' World''"
    by (simp_all add: c_str_def NUL_def)
  have nn: "NUL \<notin> set ''Hello''" "NUL \<notin> set '' World''"
    by (simp_all add: NUL_def)
  \<comment> \<open>first write\<close>
  let ?f1 = "?f\<lparr>size_bytes := length ''Hello'', blocks := blocks ?f + 1\<rparr>"
  from write_data_empty [OF fresh(1) br nn(1), of e "sb_datablocks (spblock s)"] room
  obtain m1 where w1: "write_data e ''Hello'' (sb_datablocks (spblock s)) ?f = Inr (m1, ?f1)"
    and c1: "cstr_at m1 ?ad ''Hello''"
    by (auto simp: block_size_def)
  from mywrite_run [OF res fits, of e "''Hello''" m1 ?f1] w1 pers cs
  obtain s1 where r1: "mywrite e p ''Hello'' s = Inr (5, s1)"
    and h1: "heap s1 = (heap s)(a := ?f1)" and a1: "sb_datablocks (spblock s1) = m1"
    and p1: "persistable e s1" and res1: "filetype_from_path s1 p = Inr (Some a)"
    by auto
  \<comment> \<open>second write\<close>
  have f1: "heap s1 a = ?f1" by (simp add: h1)
  let ?f2 = "?f1\<lparr>size_bytes := size_bytes ?f1 + length '' World''\<rparr>"
  have br1: "block_ref ?f1 (blocks ?f1 - 1) = Inr ?ad"
    using br fresh(2) by (simp add: block_ref_def)
  from write_data_fits [OF _ _ br1 c1 nn(2), of e] room
  obtain m2 where w2: "write_data e '' World'' m1 ?f1 = Inr (m2, ?f2)"
    and c2: "cstr_at m2 ?ad (''Hello'' @ '' World'')"
    by (auto simp: block_size_def)
  from mywrite_run [OF res1 fits, of e "'' World''" m2 ?f2] w2 p1 cs f1 a1
  obtain s2 where r2: "mywrite e p '' World'' s1 = Inr (6, s2)"
    and h2: "heap s2 = (heap s1)(a := ?f2)" and a2: "sb_datablocks (spblock s2) = m2"
    and res2: "filetype_from_path s2 p = Inr (Some a)"
    by auto
  \<comment> \<open>read\<close>
  have f2: "heap s2 a = ?f2" by (simp add: h2)
  have br2: "block_ref (heap s2 a) 0 = Inr ?ad"
    using br by (simp add: f2 block_ref_def)
  have c2': "cstr_at (sb_datablocks (spblock s2)) ?ad ''Hello World''"
    using c2 a2 by simp
  have "myread p s2 = Inr (take (size_bytes (heap s2 a) mod 1024) ''Hello World'',
      int (size_bytes (heap s2 a)))"
    using res2 _ br2 c2' fits by (rule myread_one_block) (simp add: f2 fresh(2))
  then have r3: "myread p s2 = Inr (''Hello World'', 11)"
    by (simp add: f2)
  from r1 r2 r3 show ?thesis by blast
qed

text \<open>
  C5 (for a freshly created empty file, the two writes and the read give
  \<^verbatim>\<open>Hello World\<close> and 11). In \<open>notes_fs\<close> the file \<^verbatim>\<open>/minutes_of_the_monday_meeting.txt\<close>
  has just been created: it is found under its path, has size 0 and no block in use.
  \<^verbatim>\<open>mywrite\<close> begins with \<^verbatim>\<open>malloc(sizeof(path) + 1)\<close>, 9 bytes, and copies the path into
  them with \<^verbatim>\<open>strcpy\<close>: the 34 characters and the terminator are written over the 9
  bytes and the 26 that follow them in the heap of the process, before the file is even
  looked up. \<^verbatim>\<open>myread\<close> begins in the same way. On the file \<^verbatim>\<open>/a/c\<close> of the demo tree,
  whose path fits, the writes and the read do what the claim says.
\<close>

theorem C5_write_overruns_path_copy:
  "length long_path = 34
   \<and> filetype_from_path notes_fs long_path = Inr (Some 101)
   \<and> size_bytes (heap notes_fs 101) = 0 \<and> blocks (heap notes_fs 101) = 0
   \<and> persistable zero_env notes_fs
   \<and> mywrite zero_env long_path ''Hello'' notes_fs = Inl Fault
   \<and> myread long_path notes_fs = Inl Fault
   \<and> (\<exists>s1 s2. mywrite zero_env ''/a/c'' ''Hello'' demo_fs = Inr (5, s1)
          \<and> mywrite zero_env ''/a/c'' '' World'' s1 = Inr (6, s2)
          \<and> myread ''/a/c'' s2 = Inr (''Hello World'', 11))"
proof -
  have l: "length long_path = 34" by (simp add: long_path_def)
  have r: "filetype_from_path notes_fs long_path = Inr (Some 101)"
    by (simp add: filetype_from_path_def walk.simps long_path_def notes_fs_def entry_def
        zero_filetype_def)
  have f: "size_bytes (heap notes_fs 101) = 0" "blocks (heap notes_fs 101) = 0"
    by (simp_all add: notes_fs_def entry_def zero_filetype_def)
  have "fanout_ok notes_fs"
    by (simp add: fanout_ok_def notes_fs_def entry_def zero_filetype_def)
  then have p: "persistable zero_env notes_fs" by (rule persistable_fanout)
  have w: "mywrite zero_env long_path ''Hello'' notes_fs = Inl Fault"
    using l by (simp add: mywrite_def sizeof_ptr_def)
  have rd: "myread long_path notes_fs = Inl Fault"
    using l by (simp add: myread_def sizeof_ptr_def)
  have pd: "persistable zero_env demo_fs"
    using demo_fanout by (rule persistable_fanout)
  have fd: "size_bytes (heap demo_fs 103) = 0" "blocks (heap demo_fs 103) = 0"
    "0 \<le> datablocks (heap demo_fs 103) 0" "datablocks (heap demo_fs 103) 0 < 100"
    by (simp_all add: demo_defs)
  have fit: "length ''/a/c'' \<le> sizeof_ptr" by (simp add: sizeof_ptr_def)
  note ok = write_write_read [OF demo_resolve(4) fit fd pd]
  from l r f p w rd ok show ?thesis by blast
qed

subsection \<open>C6 and C1: writes that reach the end of a block\<close>

lemma junk_tail_NUL: "j i = NUL \<Longrightarrow> 0 < k \<Longrightarrow> junk_tail j i k = Some []"
  by (cases k) simp_all

lemma write_data_overflow:
  assumes sz: "size_bytes f \<noteq> 0"
    and len1: "len1 = 1024 - size_bytes f mod 1024"
    and big: "len1 < length str"
    and junk: "junk_tail (cpystr_junk e) (len1 - 1) (1024 - (len1 - 1)) = Some tail"
      "NUL \<notin> set tail"
    and cur: "block_ref f (blocks f - 1) = Inr ad" "cstr_at m ad old"
    and str: "NUL \<notin> set str" "length str < 1024"
    and nxt: "block_ref f (blocks f - 1 + 1) = Inr ad2"
    and room: "ad + length old + (len1 - 1) + length tail < arena_size"
      "ad2 + (length str - (len1 - 1)) < arena_size"
  shows "\<exists>m2. write_data e str m f
        = Inr (m2, f\<lparr>size_bytes := size_bytes f + length str, blocks := blocks f + 1\<rparr>)
     \<and> cstr_at m2 ad2 (drop (len1 - 1) str)
     \<and> (ad + length old + (len1 - 1) + length tail < ad2
        \<longrightarrow> cstr_at m2 ad (old @ take (len1 - 1) str @ tail))"
proof -
  let ?piece = "take (len1 - 1) str @ tail"
  have np: "NUL \<notin> set ?piece"
    using str(1) junk(2) by (auto dest: in_set_takeD)
  have lp: "length ?piece = (len1 - 1) + length tail"
    using big by simp
  have "ad + length old + length ?piece < arena_size"
    using room lp by simp
  from strcat_arena_cstr [OF cur(2) np this]
  obtain m1 where m1: "strcat_arena m ad ?piece = Inr m1" "cstr_at m1 ad (old @ ?piece)"
    by blast
  have nd: "NUL \<notin> set (drop (len1 - 1) str)"
    using str(1) by (auto dest: in_set_dropD)
  have "ad2 + length (drop (len1 - 1) str) < arena_size"
    using room(2) by simp
  from strcpy_arena_cstr [OF nd this, of m1]
  obtain m2 where m2: "strcpy_arena m1 ad2 (drop (len1 - 1) str) = Inr m2"
    "cstr_at m2 ad2 (drop (len1 - 1) str)"
    "\<forall>x. x < ad2 \<or> ad2 + length (drop (len1 - 1) str) < x \<longrightarrow> m2 x = m1 x"
    by blast
  have keep: "cstr_at m2 ad (old @ ?piece)"
    if "ad + length old + (len1 - 1) + length tail < ad2"
    using m1(2)
  proof (rule cstr_at_frame)
    show "\<forall>x. ad \<le> x \<and> x \<le> ad + length (old @ ?piece) \<longrightarrow> m2 x = m1 x"
      using m2(3) that lp by simp
  qed
  have "write_data e str m f
        = Inr (m2, f\<lparr>size_bytes := size_bytes f + length str, blocks := blocks f + 1\<rparr>)"
    using sz len1 big junk(1) cur(1) m1(1) str(2) nxt m2(1)
    by (simp add: write_data_def Let_def)
  with keep m2(2) show ?thesis by simp
qed

lemma myread_two_blocks:
  assumes "filetype_from_path s p = Inr (Some a)" "blocks (heap s a) = 2"
    "block_ref (heap s a) 0 = Inr ad0" "block_ref (heap s a) 1 = Inr ad1"
    "cstr_at (sb_datablocks (spblock s)) ad0 c0" "cstr_at (sb_datablocks (spblock s)) ad1 c1"
    "length p \<le> sizeof_ptr"
  shows "myread p s
     = Inr (take 1024 c0 @ take (size_bytes (heap s a) mod 1024) c1, int (size_bytes (heap s a)))"
proof -
  let ?m = "sb_datablocks (spblock s)"
  have "read_loop ?m (heap s a) 0 [] = read_loop ?m (heap s a) (0 + 1) ([] @ c_strn ?m ad0 1024)"
    using assms(2,3) by (subst read_loop.simps) simp
  also have "\<dots> = Inr (1, take 1024 c0)"
    using assms(2) c_strn_cstr [OF assms(5)] by (subst read_loop.simps) simp
  finally show ?thesis
    using assms(1,2,4,7) c_strn_cstr [OF assms(6)] by (simp add: myread_def used_def Let_def)
qed

lemma spread_facts:
  "filetype_from_path spread_fs ''/a/c'' = Inr (Some 103)"
  "persistable zero_env spread_fs"
  "size_bytes (heap spread_fs 103) = 0" "blocks (heap spread_fs 103) = 0"
  "datablocks (heap spread_fs 103) = (\<lambda>i. int i + 1)"
  "valid (heap spread_fs 103) = 1" "children (heap spread_fs 103) = []"
proof -
  have "filetype_from_path spread_fs ''/a/c'' = filetype_from_path demo_fs ''/a/c''"
    by (rule filetype_from_path_cong) (simp_all add: spread_fs_def)
  then show "filetype_from_path spread_fs ''/a/c'' = Inr (Some 103)"
    by (simp add: demo_resolve)
  have "fanout_ok spread_fs"
    by (simp add: fanout_ok_def spread_fs_def demo_defs)
  then show "persistable zero_env spread_fs" by (rule persistable_fanout)
qed (simp_all add: spread_fs_def demo_defs)

lemma demo_file:
  "size_bytes (heap demo_fs 103) = 0" "blocks (heap demo_fs 103) = 0"
  "datablocks (heap demo_fs 103) = (\<lambda>i. 1)"
  by (simp_all add: demo_defs)

lemma digits: "c_str ''0123456789'' = ''0123456789''" "NUL \<notin> set ''0123456789''"
  by (simp_all add: c_str_def NUL_def)

lemma run_of_a: "c_str (replicate n CHR ''a'') = replicate n CHR ''a''"
  "NUL \<notin> set (replicate n CHR ''a'')"
  by (simp_all add: c_str_def NUL_def)

text \<open>
  C6 (1024 bytes, then 10 more: two blocks in use, the ten bytes at the start of the
  second referenced block). On the file \<^verbatim>\<open>/a/c\<close> of the demo tree, the second write
  finds \<^verbatim>\<open>1024 - size % 1024 = 1024\<close> bytes free in the full block and appends with
  \<^verbatim>\<open>strcat\<close>: the block count stays 1, and the ten bytes lie behind the block, at the
  start of arena block 2, which is not one of the file's blocks (all sixteen references
  of the file are block 1). \<^verbatim>\<open>myread\<close> then returns ten bytes for the reported length
  1034.
\<close>

theorem C6_append_after_full_block:
  "\<exists>s1 s2. mywrite zero_env ''/a/c'' (replicate 1024 CHR ''a'') demo_fs = Inr (1024, s1)
     \<and> mywrite zero_env ''/a/c'' ''0123456789'' s1 = Inr (10, s2)
     \<and> blocks (heap s2 103) = 1
     \<and> size_bytes (heap s2 103) = 1034
     \<and> datablocks (heap s2 103) 0 = 1 \<and> datablocks (heap s2 103) 1 = 1
     \<and> c_strn (sb_datablocks (spblock s2)) (block_size * 1) 1024 = replicate 1024 CHR ''a''
     \<and> c_strn (sb_datablocks (spblock s2)) (block_size * 2) 10 = ''0123456789''
     \<and> myread ''/a/c'' s2 = Inr (replicate 10 CHR ''a'', 1034)"
proof -
  let ?as = "replicate 1024 CHR ''a''"
  let ?f = "heap demo_fs 103"
  have p: "persistable zero_env demo_fs"
    using demo_fanout by (rule persistable_fanout)
  have fit: "length ''/a/c'' \<le> sizeof_ptr" by (simp add: sizeof_ptr_def)
  have br: "block_ref ?f 0 = Inr 1024"
    by (simp add: block_ref_def demo_file block_size_def)
  \<comment> \<open>first write\<close>
  let ?f1 = "?f\<lparr>size_bytes := length ?as, blocks := blocks ?f + 1\<rparr>"
  from write_data_empty [OF demo_file(1) br run_of_a(2) [of 1024], of zero_env
      "sb_datablocks (spblock demo_fs)"]
  obtain m1 where w1: "write_data zero_env ?as (sb_datablocks (spblock demo_fs)) ?f = Inr (m1, ?f1)"
    and c1: "cstr_at m1 1024 ?as"
    by (auto simp: arena_size_def block_size_def)
  from mywrite_run [OF demo_resolve(4) fit, of zero_env ?as m1 ?f1] w1 p
  obtain s1 where r1: "mywrite zero_env ''/a/c'' ?as demo_fs = Inr (1024, s1)"
    and h1: "heap s1 = (heap demo_fs)(103 := ?f1)" and a1: "sb_datablocks (spblock s1) = m1"
    and p1: "persistable zero_env s1" and res1: "filetype_from_path s1 ''/a/c'' = Inr (Some 103)"
    by (auto simp: run_of_a)
  \<comment> \<open>second write\<close>
  have f1: "heap s1 103 = ?f1" by (simp add: h1)
  let ?f2 = "?f1\<lparr>size_bytes := size_bytes ?f1 + length ''0123456789''\<rparr>"
  have br1: "block_ref ?f1 (blocks ?f1 - 1) = Inr 1024"
    by (simp add: block_ref_def demo_file block_size_def)
  from write_data_fits [OF _ _ br1 c1 digits(2), of zero_env]
  obtain m2 where w2: "write_data zero_env ''0123456789'' m1 ?f1 = Inr (m2, ?f2)"
    and c2: "cstr_at m2 1024 (?as @ ''0123456789'')"
    by (auto simp: arena_size_def block_size_def)
  from mywrite_run [OF res1 fit, of zero_env "''0123456789''" m2 ?f2] w2 p1 digits f1 a1
  obtain s2 where r2: "mywrite zero_env ''/a/c'' ''0123456789'' s1 = Inr (10, s2)"
    and h2: "heap s2 = (heap s1)(103 := ?f2)" and a2: "sb_datablocks (spblock s2) = m2"
    and res2: "filetype_from_path s2 ''/a/c'' = Inr (Some 103)"
    by auto
  have f2: "heap s2 103 = ?f2" by (simp add: h2)
  have b1: "c_strn m2 (block_size * 1) 1024 = ?as"
    using c_strn_cstr [OF c2, of 1024] by (simp add: block_size_def)
  have "cstr_at m2 (1024 + length ?as) ''0123456789''"
    using c2 by (rule cstr_at_suffix)
  then have b2: "c_strn m2 (block_size * 2) 10 = ''0123456789''"
    using c_strn_cstr [of m2 2048 "''0123456789''" 10] by (simp add: block_size_def)
  have "myread ''/a/c'' s2 = Inr (take (size_bytes (heap s2 103) mod 1024) (?as @ ''0123456789''),
      int (size_bytes (heap s2 103)))"
    using res2
  proof (rule myread_one_block)
    show "blocks (heap s2 103) = 1" by (simp add: f2 demo_file)
    show "block_ref (heap s2 103) 0 = Inr 1024"
      by (simp add: f2 block_ref_def demo_file block_size_def)
    show "cstr_at (sb_datablocks (spblock s2)) 1024 (?as @ ''0123456789'')"
      using c2 a2 by simp
    show "length ''/a/c'' \<le> sizeof_ptr" by (rule fit)
  qed
  then have r3: "myread ''/a/c'' s2 = Inr (replicate 10 CHR ''a'', 1034)"
    by (simp add: f2 demo_file)
  show ?thesis
    using r1 r2 b1 b2 r3
    by (intro exI [of _ s1] exI [of _ s2]) (simp add: f2 a2 demo_file)
qed

text \<open>
  C1 (a write that does not fit fills the rest of the current block and puts the
  overflow into the next referenced block). On a file of 1020 bytes whose block
  references are 1, 2, ..., writing ten bytes copies only \<^verbatim>\<open>len1 - 1 = 3\<close> of them
  into the four bytes left of block 1 and the other seven into block 2. Block 1 then
  holds 1023 bytes, and \<^verbatim>\<open>myread\<close>, which takes \<^verbatim>\<open>size % 1024\<close> bytes from the last
  block, returns 1029 bytes for the reported length 1030: the last byte is lost.
\<close>

theorem C1_overflow_write_leaves_a_byte:
  "\<exists>s1 s2. mywrite zero_env ''/a/c'' (replicate 1020 CHR ''a'') spread_fs = Inr (1020, s1)
     \<and> mywrite zero_env ''/a/c'' ''0123456789'' s1 = Inr (10, s2)
     \<and> blocks (heap s2 103) = 2
     \<and> size_bytes (heap s2 103) = 1030
     \<and> datablocks (heap s2 103) 0 = 1 \<and> datablocks (heap s2 103) 1 = 2
     \<and> c_strn (sb_datablocks (spblock s2)) (block_size * 1) 1024 = replicate 1020 CHR ''a'' @ ''012''
     \<and> c_strn (sb_datablocks (spblock s2)) (block_size * 2) 1024 = ''3456789''
     \<and> myread ''/a/c'' s2 = Inr (replicate 1020 CHR ''a'' @ ''012345678'', 1030)"
proof -
  let ?as = "replicate 1020 CHR ''a''"
  let ?f = "heap spread_fs 103"
  have fit: "length ''/a/c'' \<le> sizeof_ptr" by (simp add: sizeof_ptr_def)
  have br: "block_ref ?f 0 = Inr 1024"
    by (simp add: block_ref_def spread_facts block_size_def)
  \<comment> \<open>first write\<close>
  let ?f1 = "?f\<lparr>size_bytes := length ?as, blocks := blocks ?f + 1\<rparr>"
  from write_data_empty [OF spread_facts(3) br run_of_a(2) [of 1020], of zero_env
      "sb_datablocks (spblock spread_fs)"]
  obtain m1 where w1: "write_data zero_env ?as (sb_datablocks (spblock spread_fs)) ?f = Inr (m1, ?f1)"
    and c1: "cstr_at m1 1024 ?as"
    by (auto simp: arena_size_def block_size_def)
  from mywrite_run [OF spread_facts(1) fit, of zero_env ?as m1 ?f1] w1 spread_facts(2)
  obtain s1 where r1: "mywrite zero_env ''/a/c'' ?as spread_fs = Inr (1020, s1)"
    and h1: "heap s1 = (heap spread_fs)(103 := ?f1)" and a1: "sb_datablocks (spblock s1) = m1"
    and p1: "persistable zero_env s1" and res1: "filetype_from_path s1 ''/a/c'' = Inr (Some 103)"
    by (auto simp: run_of_a)
  \<comment> \<open>second write\<close>
  have f1: "heap s1 103 = ?f1" by (simp add: h1)
  let ?f2 = "?f1\<lparr>size_bytes := size_bytes ?f1 + length ''0123456789'', blocks := blocks ?f1 + 1\<rparr>"
  have br1: "block_ref ?f1 (blocks ?f1 - 1) = Inr 1024"
    "block_ref ?f1 (blocks ?f1 - 1 + 1) = Inr 2048"
    by (simp_all add: block_ref_def spread_facts block_size_def)
  have jt: "junk_tail (cpystr_junk zero_env) (4 - 1) (1024 - (4 - 1)) = Some []"
    by (rule junk_tail_NUL) (simp_all add: zero_env_def)
  from write_data_overflow [where e = zero_env and f = ?f1 and ?len1.0 = 4 and str = "''0123456789''"
      and tail = "[]" and ad = 1024 and m = m1 and old = ?as and ?ad2.0 = 2048,
      OF _ _ _ jt _ br1(1) c1 digits(2) _ br1(2)]
  obtain m2 where w2: "write_data zero_env ''0123456789'' m1 ?f1 = Inr (m2, ?f2)"
    and c2: "cstr_at m2 1024 (?as @ take (4 - 1) ''0123456789'' @ [])"
    and c3: "cstr_at m2 2048 (drop (4 - 1) ''0123456789'')"
    by (auto simp: arena_size_def block_size_def)
  from mywrite_run [OF res1 fit, of zero_env "''0123456789''" m2 ?f2] w2 p1 digits f1 a1
  obtain s2 where r2: "mywrite zero_env ''/a/c'' ''0123456789'' s1 = Inr (10, s2)"
    and h2: "heap s2 = (heap s1)(103 := ?f2)" and a2: "sb_datablocks (spblock s2) = m2"
    and res2: "filetype_from_path s2 ''/a/c'' = Inr (Some 103)"
    by auto
  have f2: "heap s2 103 = ?f2" by (simp add: h2)
  have c2': "cstr_at m2 1024 (?as @ ''012'')" using c2 by simp
  have c3': "cstr_at m2 2048 ''3456789''" using c3 by simp
  have b1: "c_strn m2 (block_size * 1) 1024 = ?as @ ''012''"
    using c_strn_cstr [OF c2', of 1024] by (simp add: block_size_def)
  have b2: "c_strn m2 (block_size * 2) 1024 = ''3456789''"
    using c_strn_cstr [OF c3', of 1024] by (simp add: block_size_def)
  have br2: "block_ref (heap s2 103) 0 = Inr 1024" "block_ref (heap s2 103) 1 = Inr 2048"
    by (simp_all add: f2 block_ref_def spread_facts block_size_def)
  have "myread ''/a/c'' s2 = Inr (take 1024 (?as @ ''012'')
      @ take (size_bytes (heap s2 103) mod 1024) ''3456789'', int (size_bytes (heap s2 103)))"
    using res2 _ br2
  proof (rule myread_two_blocks)
    show "blocks (heap s2 103) = 2" by (simp add: f2 spread_facts)
    show "cstr_at (sb_datablocks (spblock s2)) 1024 (?as @ ''012'')" using c2' a2 by simp
    show "cstr_at (sb_datablocks (spblock s2)) 2048 ''3456789''" using c3' a2 by simp
    show "length ''/a/c'' \<le> sizeof_ptr" by (rule fit)
  qed
  then have r3: "myread ''/a/c'' s2 = Inr (?as @ ''012345678'', 1030)"
    by (simp add: f2 spread_facts)
  show ?thesis
    using r1 r2 b1 b2 r3
    by (intro exI [of _ s1] exI [of _ s2]) (simp add: f2 a2 spread_facts)
qed

text \<open>
  The same two writes on the file as \<^verbatim>\<open>mycreate\<close> leaves it, with all sixteen block
  references equal to 1 (\<^verbatim>\<open>find_free_db\<close> returns 1 at every call). Here "the next
  block" is the current block again: the overflow is copied over the start of the 1020
  bytes, and \<^verbatim>\<open>myread\<close> returns thirteen bytes for the reported length 1030.
\<close>

lemma overflow_write_on_created_file:
  "\<exists>s1 s2. mywrite zero_env ''/a/c'' (replicate 1020 CHR ''a'') demo_fs = Inr (1020, s1)
     \<and> mywrite zero_env ''/a/c'' ''0123456789'' s1 = Inr (10, s2)
     \<and> blocks (heap s2 103) = 2
     \<and> size_bytes (heap s2 103) = 1030
     \<and> myread ''/a/c'' s2 = Inr (''3456789345678'', 1030)"
proof -
  let ?as = "replicate 1020 CHR ''a''"
  let ?f = "heap demo_fs 103"
  have p: "persistable zero_env demo_fs"
    using demo_fanout by (rule persistable_fanout)
  have fit: "length ''/a/c'' \<le> sizeof_ptr" by (simp add: sizeof_ptr_def)
  have br: "block_ref ?f 0 = Inr 1024"
    by (simp add: block_ref_def demo_file block_size_def)
  let ?f1 = "?f\<lparr>size_bytes := length ?as, blocks := blocks ?f + 1\<rparr>"
  from write_data_empty [OF demo_file(1) br run_of_a(2) [of 1020], of zero_env
      "sb_datablocks (spblock demo_fs)"]
  obtain m1 where w1: "write_data zero_env ?as (sb_datablocks (spblock demo_fs)) ?f = Inr (m1, ?f1)"
    and c1: "cstr_at m1 1024 ?as"
    by (auto simp: arena_size_def block_size_def)
  from mywrite_run [OF demo_resolve(4) fit, of zero_env ?as m1 ?f1] w1 p
  obtain s1 where r1: "mywrite zero_env ''/a/c'' ?as demo_fs = Inr (1020, s1)"
    and h1: "heap s1 = (heap demo_fs)(103 := ?f1)" and a1: "sb_datablocks (spblock s1) = m1"
    and p1: "persistable zero_env s1" and res1: "filetype_from_path s1 ''/a/c'' = Inr (Some 103)"
    by (auto simp: run_of_a)
  have f1: "heap s1 103 = ?f1" by (simp add: h1)
  let ?f2 = "?f1\<lparr>size_bytes := size_bytes ?f1 + length ''0123456789'', blocks := blocks ?f1 + 1\<rparr>"
  have br1: "block_ref ?f1 (blocks ?f1 - 1) = Inr 1024"
    "block_ref ?f1 (blocks ?f1 - 1 + 1) = Inr 1024"
    by (simp_all add: block_ref_def demo_file block_size_def)
  have jt: "junk_tail (cpystr_junk zero_env) (4 - 1) (1024 - (4 - 1)) = Some []"
    by (rule junk_tail_NUL) (simp_all add: zero_env_def)
  from write_data_overflow [where e = zero_env and f = ?f1 and ?len1.0 = 4
      and str = "''0123456789''" and tail = "[]" and ad = 1024 and m = m1 and old = ?as
      and ?ad2.0 = 1024, OF _ _ _ jt _ br1(1) c1 digits(2) _ br1(2)]
  obtain m2 where w2: "write_data zero_env ''0123456789'' m1 ?f1 = Inr (m2, ?f2)"
    and c3: "cstr_at m2 1024 (drop (4 - 1) ''0123456789'')"
    by (auto simp: arena_size_def block_size_def)
  from mywrite_run [OF res1 fit, of zero_env "''0123456789''" m2 ?f2] w2 p1 digits f1 a1
  obtain s2 where r2: "mywrite zero_env ''/a/c'' ''0123456789'' s1 = Inr (10, s2)"
    and h2: "heap s2 = (heap s1)(103 := ?f2)" and a2: "sb_datablocks (spblock s2) = m2"
    and res2: "filetype_from_path s2 ''/a/c'' = Inr (Some 103)"
    by auto
  have f2: "heap s2 103 = ?f2" by (simp add: h2)
  have c3': "cstr_at (sb_datablocks (spblock s2)) 1024 ''3456789''" using c3 a2 by simp
  have br2: "block_ref (heap s2 103) 0 = Inr 1024" "block_ref (heap s2 103) 1 = Inr 1024"
    by (simp_all add: f2 block_ref_def demo_file block_size_def)
  have "myread ''/a/c'' s2 = Inr (take 1024 ''3456789''
      @ take (size_bytes (heap s2 103) mod 1024) ''3456789'', int (size_bytes (heap s2 103)))"
    using res2 _ br2 c3' c3' fit
    by (rule myread_two_blocks) (simp add: f2 demo_file)
  then have r3: "myread ''/a/c'' s2 = Inr (''3456789345678'', 1030)"
    by (simp add: f2 demo_file)
  show ?thesis
    using r1 r2 r3
    by (intro exI [of _ s1] exI [of _ s2]) (simp add: f2 demo_file)
qed

end
